theory Spec2Isabelle
  imports Main "HOL-Library.Char_ord" "HOL-Library.List_Lexorder"
begin

section \<open>Property records and the search tree of jsproperty.c\<close>

text \<open>
  The file keeps the properties of an object in an AA-tree of \<open>js_Property\<close> records and
  threads the same records on a list in insertion order. A record is identified by its
  address. The links \<open>left\<close> and \<open>right\<close> are the owning links of the tree: they are the
  children of the datatype \<open>tree\<close> below. Every other field of the C struct is a field of
  the record \<open>js_Property\<close>, the list links \<open>next\<close> and \<open>prevp\<close> included, and these two hold
  addresses.
\<close>

text \<open>
  \<open>jsvalue.h\<close> is not among the sources. Of the value tags this file names only
  \<open>JS_TUNDEFINED\<close>; the other constructors stand for the rest of the enumeration. The
  union \<open>u\<close> of a value is one integer.
\<close>

datatype js_Type = JS_TUNDEFINED | JS_TNULL | JS_TBOOLEAN | JS_TNUMBER | JS_TSTRING | JS_TOBJECT

record js_Value =
  vtype :: js_Type
  number :: int

text \<open>
  \<open>prevp\<close> has type \<open>js_Property **\<close>: it is \<open>NULL\<close>, or the address of the \<open>head\<close> field
  of the owning object, or the address of the \<open>next\<close> field of another record.
\<close>

datatype slot = HeadOf nat | NextOf nat

record js_Property =
  addr :: nat
  name :: string
  level :: int
  atts :: int
  "value" :: js_Value
  prevp :: "slot option"
  "next" :: "nat option"

text \<open>
  \<open>Sentinel\<close> is the address \<open>&sentinel\<close>. The record behind it is shared by all trees and
  is static data that the code can write to: its level is carried through the tree
  operations as an integer (\<open>sl\<close> below, initially 0), and its two links, which point to
  itself, are read as such. A store that would make one of the two links point to another
  record ends the run with \<open>SentinelClobbered\<close>: from there on the links no longer form a
  tree.
\<close>

datatype tree = Sentinel | Node tree js_Property tree

datatype error = SentinelClobbered | NullDereference | UseAfterFree | NotAnIterator

text \<open>\<open>node->level\<close>, where \<open>node\<close> may be \<open>&sentinel\<close>.\<close>

fun lvl :: "int \<Rightarrow> tree \<Rightarrow> int" where
  "lvl sl Sentinel = sl"
| "lvl sl (Node l p r) = level p"

text \<open>
  \<open>strcmp\<close> of the C library: the names are compared byte by byte as unsigned characters,
  a proper prefix being smaller. Only the sign of the result is used.
\<close>

definition strcmp :: "string \<Rightarrow> string \<Rightarrow> int" where
  "strcmp s t = (if s < t then - 1 else if s = t then 0 else 1)"

text \<open>\<open>newproperty\<close>: the record is allocated at the address \<open>a\<close>.\<close>

definition newproperty :: "nat \<Rightarrow> string \<Rightarrow> js_Property" where
  "newproperty a nm =
     \<lparr>addr = a, name = nm, level = 1, atts = 0,
      value = \<lparr>vtype = JS_TUNDEFINED, number = 0\<rparr>, prevp = None, next = None\<rparr>"

fun lookup :: "tree \<Rightarrow> string \<Rightarrow> js_Property option" where
  "lookup Sentinel nm = None"
| "lookup (Node l p r) nm =
     (let c = strcmp nm (name p) in
      if c = 0 then Some p
      else if c < 0 then lookup l nm
      else lookup r nm)"

text \<open>
  \<open>skew\<close>. On \<open>&sentinel\<close> the test holds (the left link of the sentinel is the sentinel)
  and the two stores write \<open>&sentinel\<close> into links that hold it already. On a record whose
  left link is the sentinel, a true test would store the record into \<open>sentinel.right\<close>.
\<close>

fun skew :: "int \<Rightarrow> tree \<Rightarrow> error + tree" where
  "skew sl Sentinel = Inr Sentinel"
| "skew sl (Node Sentinel p r) =
     (if sl = level p then Inl SentinelClobbered else Inr (Node Sentinel p r))"
| "skew sl (Node (Node ll lp lr) p r) =
     (if level lp = level p then Inr (Node ll lp (Node lr p r))
      else Inr (Node (Node ll lp lr) p r))"

text \<open>
  \<open>split\<close>. On \<open>&sentinel\<close> the test holds, the stores leave the links as they are, and
  \<open>++node->level\<close> increments the level of the sentinel. On a record whose right link is
  the sentinel, a true test would store the record into \<open>sentinel.left\<close>.
\<close>

fun split :: "int \<Rightarrow> tree \<Rightarrow> error + (int \<times> tree)" where
  "split sl Sentinel = Inr (sl + 1, Sentinel)"
| "split sl (Node l p Sentinel) =
     (if sl = level p then Inl SentinelClobbered else Inr (sl, Node l p Sentinel))"
| "split sl (Node l p (Node rl rp rr)) =
     (if lvl sl rr = level p
      then Inr (sl, Node (Node l p rl) (rp\<lparr>level := level rp + 1\<rparr>) rr)
      else Inr (sl, Node l p (Node rl rp rr)))"

text \<open>
  \<open>insert\<close>. The result is the sentinel level, the new root of the subtree and \<open>*result\<close>,
  the address of the record found or created. \<open>a\<close> is the address \<open>malloc\<close> returns if a
  record is created.
\<close>

fun insert_node :: "int \<Rightarrow> nat \<Rightarrow> tree \<Rightarrow> string \<Rightarrow> error + (int \<times> tree \<times> nat)" where
  "insert_node sl a Sentinel nm = Inr (sl, Node Sentinel (newproperty a nm) Sentinel, a)"
| "insert_node sl a (Node l p r) nm =
     (let c = strcmp nm (name p) in
      if c < 0 then
        (case insert_node sl a l nm of
           Inl e \<Rightarrow> Inl e
         | Inr (sl1, l1, res) \<Rightarrow>
             (case skew sl1 (Node l1 p r) of
                Inl e \<Rightarrow> Inl e
              | Inr t1 \<Rightarrow>
                  (case split sl1 t1 of
                     Inl e \<Rightarrow> Inl e
                   | Inr (sl2, t2) \<Rightarrow> Inr (sl2, t2, res))))
      else if c > 0 then
        (case insert_node sl a r nm of
           Inl e \<Rightarrow> Inl e
         | Inr (sl1, r1, res) \<Rightarrow>
             (case skew sl1 (Node l p r1) of
                Inl e \<Rightarrow> Inl e
              | Inr t1 \<Rightarrow>
                  (case split sl1 t1 of
                     Inl e \<Rightarrow> Inl e
                   | Inr (sl2, t2) \<Rightarrow> Inr (sl2, t2, res))))
      else Inr (sl, Node l p r, addr p))"

text \<open>
  The loop of \<open>delete\<close> that finds the in-order successor: \<open>leftmost l p\<close> is the record
  reached from a record \<open>p\<close> with left subtree \<open>l\<close>.
\<close>

fun leftmost :: "tree \<Rightarrow> js_Property \<Rightarrow> js_Property" where
  "leftmost Sentinel p = p"
| "leftmost (Node ll lp lr) p = leftmost ll lp"

text \<open>\<open>node->right->level = node->level\<close>, where \<open>node->right\<close> may be the sentinel.\<close>

fun set_level :: "int \<Rightarrow> tree \<Rightarrow> int \<Rightarrow> int \<times> tree" where
  "set_level sl Sentinel v = (v, Sentinel)"
| "set_level sl (Node l p r) v = (sl, Node l (p\<lparr>level := v\<rparr>) r)"

text \<open>
  \<open>node->right = skew(node->right)\<close>, \<open>node->right->right = skew(node->right->right)\<close> and
  \<open>node->right = split(node->right)\<close>. When \<open>node\<close> is the sentinel, \<open>node->right\<close> is the
  sentinel too, and the store writes the sentinel into \<open>sentinel.right\<close>.
\<close>

fun skew_right :: "int \<Rightarrow> tree \<Rightarrow> error + tree" where
  "skew_right sl Sentinel = Inr Sentinel"
| "skew_right sl (Node l p r) =
     (case skew sl r of Inl e \<Rightarrow> Inl e | Inr r1 \<Rightarrow> Inr (Node l p r1))"

fun skew_right_right :: "int \<Rightarrow> tree \<Rightarrow> error + tree" where
  "skew_right_right sl Sentinel = Inr Sentinel"
| "skew_right_right sl (Node l p r) =
     (case skew_right sl r of Inl e \<Rightarrow> Inl e | Inr r1 \<Rightarrow> Inr (Node l p r1))"

fun split_right :: "int \<Rightarrow> tree \<Rightarrow> error + (int \<times> tree)" where
  "split_right sl Sentinel = Inr (sl + 1, Sentinel)"
| "split_right sl (Node l p r) =
     (case split sl r of Inl e \<Rightarrow> Inl e | Inr (sl1, r1) \<Rightarrow> Inr (sl1, Node l p r1))"

text \<open>
  The last block of \<open>delete\<close> (the test on the levels of the two children and the five
  rotations), run on the record \<open>node\<close> points to once the name is removed below it. That
  record can be the sentinel, when a record without left child was replaced by its right
  link: then the test compares the sentinel's level with itself minus one, and fails.
\<close>

fun rebalance :: "int \<Rightarrow> tree \<Rightarrow> error + (int \<times> tree)" where
  "rebalance sl Sentinel = Inr (sl, Sentinel)"
| "rebalance sl (Node l p r) =
     (if lvl sl l < level p - 1 \<or> lvl sl r < level p - 1 then
        (let p1 = p\<lparr>level := level p - 1\<rparr>;
             (sl1, r1) = (if lvl sl r > level p1 then set_level sl r (level p1) else (sl, r))
         in case skew sl1 (Node l p1 r1) of
              Inl e \<Rightarrow> Inl e
            | Inr t1 \<Rightarrow>
                (case skew_right sl1 t1 of
                   Inl e \<Rightarrow> Inl e
                 | Inr t2 \<Rightarrow>
                     (case skew_right_right sl1 t2 of
                        Inl e \<Rightarrow> Inl e
                      | Inr t3 \<Rightarrow>
                          (case split sl1 t3 of
                             Inl e \<Rightarrow> Inl e
                           | Inr (sl2, t4) \<Rightarrow> split_right sl2 t4))))
      else Inr (sl, Node l p r))"

text \<open>
  \<open>delete\<close>. The result is the sentinel level, the new root of the subtree and the record
  handed to \<open>freenode\<close>, if any, with the fields it had then. \<open>freenode\<close> reads and writes
  list links only (\<open>next\<close>, \<open>prevp\<close>, and the slot \<open>prevp\<close> points to), which \<open>delete\<close>,
  \<open>skew\<close> and \<open>split\<close> never read: \<open>jsV_delproperty\<close> below applies it to the record that
  \<open>delete\<close> reports.
\<close>

fun delete :: "int \<Rightarrow> tree \<Rightarrow> string \<Rightarrow> error + (int \<times> tree \<times> js_Property option)" where
  "delete sl Sentinel nm = Inr (sl, Sentinel, None)"
| "delete sl (Node l p r) nm =
     (let c = strcmp nm (name p) in
      if c < 0 then
        (case delete sl l nm of
           Inl e \<Rightarrow> Inl e
         | Inr (sl1, l1, fr) \<Rightarrow>
             (case rebalance sl1 (Node l1 p r) of
                Inl e \<Rightarrow> Inl e
              | Inr (sl2, t) \<Rightarrow> Inr (sl2, t, fr)))
      else if c > 0 then
        (case delete sl r nm of
           Inl e \<Rightarrow> Inl e
         | Inr (sl1, r1, fr) \<Rightarrow>
             (case rebalance sl1 (Node l p r1) of
                Inl e \<Rightarrow> Inl e
              | Inr (sl2, t) \<Rightarrow> Inr (sl2, t, fr)))
      else
        (case l of
           Sentinel \<Rightarrow>
             (case rebalance sl r of
                Inl e \<Rightarrow> Inl e
              | Inr (sl2, t) \<Rightarrow> Inr (sl2, t, Some p))
         | Node ll lp lr \<Rightarrow>
             (case r of
                Sentinel \<Rightarrow>
                  (case rebalance sl l of
                     Inl e \<Rightarrow> Inl e
                   | Inr (sl2, t) \<Rightarrow> Inr (sl2, t, Some p))
              | Node rl rp rr \<Rightarrow>
                  (let succ = leftmost rl rp;
                       p1 = p\<lparr>name := name succ, atts := atts succ, value := value succ\<rparr>
                   in case delete sl r (name succ) of
                        Inl e \<Rightarrow> Inl e
                      | Inr (sl1, r1, fr) \<Rightarrow>
                          (case rebalance sl1 (Node l p1 r1) of
                             Inl e \<Rightarrow> Inl e
                           | Inr (sl2, t) \<Rightarrow> Inr (sl2, t, fr))))))"


section \<open>The invariants of the tree\<close>

text \<open>
  The invariants listed at the head of the file, with the sentinel at level 0: a leaf is a
  record whose two links are the sentinel, and the sentinel counts as a child of level 0.
  \<open>right_of\<close> is \<open>node->right\<close>, which for the sentinel is the sentinel.
\<close>

fun right_of :: "tree \<Rightarrow> tree" where
  "right_of Sentinel = Sentinel"
| "right_of (Node l p r) = r"

fun left_of :: "tree \<Rightarrow> tree" where
  "left_of Sentinel = Sentinel"
| "left_of (Node l p r) = l"

fun aa_tree :: "tree \<Rightarrow> bool" where
  "aa_tree Sentinel = True"
| "aa_tree (Node l p r) =
     (aa_tree l \<and> aa_tree r \<and>
      (l = Sentinel \<and> r = Sentinel \<longrightarrow> level p = 1) \<and>
      lvl 0 l = level p - 1 \<and>
      (lvl 0 r = level p \<or> lvl 0 r = level p - 1) \<and>
      lvl 0 (right_of r) < level p \<and>
      (1 < level p \<longrightarrow> l \<noteq> Sentinel \<and> r \<noteq> Sentinel) \<and>
      lvl 0 l \<noteq> level p \<and>
      \<not> (lvl 0 r = level p \<and> lvl 0 (right_of r) = level p))"

text \<open>The same invariant in the form the proofs use.\<close>

fun invar :: "tree \<Rightarrow> bool" where
  "invar Sentinel = True"
| "invar (Node l p r) =
     (invar l \<and> invar r \<and> level p = lvl 0 l + 1 \<and>
      (level p = lvl 0 r + 1 \<or>
       (lvl 0 r = level p \<and> r \<noteq> Sentinel \<and> level p = lvl 0 (right_of r) + 1)))"

text \<open>A record whose right link is not horizontal.\<close>

fun sngl :: "tree \<Rightarrow> bool" where
  "sngl Sentinel = False"
| "sngl (Node l p r) = (lvl 0 r < level p)"

text \<open>What insertion and deletion do to the level of a subtree.\<close>

definition post_ins :: "tree \<Rightarrow> tree \<Rightarrow> bool" where
  "post_ins t t' =
     (invar t' \<and>
      (lvl 0 t' = lvl 0 t \<or>
       (lvl 0 t' = lvl 0 t + 1 \<and> t' \<noteq> Sentinel \<and>
        lvl 0 (left_of t') = lvl 0 t \<and> lvl 0 (right_of t') = lvl 0 t)) \<and>
      (sngl t \<longrightarrow> lvl 0 t' = lvl 0 t))"

definition post_del :: "tree \<Rightarrow> tree \<Rightarrow> bool" where
  "post_del t t' =
     (invar t' \<and>
      (lvl 0 t' = lvl 0 t \<or> lvl 0 t' + 1 = lvl 0 t) \<and>
      (lvl 0 t' = lvl 0 t \<and> sngl t \<longrightarrow> sngl t'))"

text \<open>What the last block of \<open>delete\<close> makes of a record \<open>p\<close> with the subtrees \<open>l\<close> and \<open>r\<close>.\<close>

definition post_reb :: "tree \<Rightarrow> js_Property \<Rightarrow> tree \<Rightarrow> tree \<Rightarrow> bool" where
  "post_reb l p r t' =
     (rebalance 0 (Node l p r) = Inr (0, t') \<and> invar t' \<and>
      (lvl 0 t' = level p \<or> lvl 0 t' + 1 = level p) \<and>
      (lvl 0 r < level p \<and> lvl 0 t' = level p \<longrightarrow> sngl t'))"

section \<open>The search order and the records of a tree\<close>

text \<open>
  The names in a tree, the order \<open>lookup\<close> relies on, and the records of a tree with the
  level left out (the rotations change levels and links only).
\<close>

fun tree_names :: "tree \<Rightarrow> string set" where
  "tree_names Sentinel = {}"
| "tree_names (Node l p r) = tree_names l \<union> {name p} \<union> tree_names r"

fun bst :: "tree \<Rightarrow> bool" where
  "bst Sentinel = True"
| "bst (Node l p r) =
     (bst l \<and> bst r \<and> (\<forall>x \<in> tree_names l. x < name p) \<and> (\<forall>x \<in> tree_names r. name p < x))"

definition unlevel :: "js_Property \<Rightarrow> js_Property" where
  "unlevel p = p\<lparr>level := 0\<rparr>"

fun recs :: "tree \<Rightarrow> js_Property set" where
  "recs Sentinel = {}"
| "recs (Node l p r) = recs l \<union> {unlevel p} \<union> recs r"

text \<open>What \<open>lookup\<close> finds, with the level left out.\<close>

definition view :: "tree \<Rightarrow> string \<Rightarrow> js_Property option" where
  "view t nm = map_option unlevel (lookup t nm)"

text \<open>A step that moves records and changes levels, and nothing else that \<open>lookup\<close> sees.\<close>

definition keeps :: "tree \<Rightarrow> tree \<Rightarrow> bool" where
  "keeps t t' = (tree_names t' = tree_names t \<and> (bst t \<longrightarrow> bst t' \<and> view t' = view t))"



section \<open>Sequences of tree operations\<close>




section \<open>Objects, the ordered list and the iterator\<close>

text \<open>
  \<open>jsvalue.h\<close> is not among the sources: of the classes this file names only
  \<open>JS_CITERATOR\<close>. The two members of the union \<open>u\<close> this file uses are the fields
  \<open>alength\<close> (\<open>u.a.length\<close>, an \<open>unsigned int\<close> that is only compared and stored here), and
  \<open>target\<close> and \<open>iter_head\<close> (\<open>u.iter\<close>); the queue of \<open>js_Iterator\<close> cells, each owned by
  the iterator alone, is the list of the names they hold.
\<close>

datatype js_Class = JS_COBJECT | JS_CARRAY | JS_CFUNCTION | JS_CITERATOR

record js_Object =
  otype :: js_Class
  properties :: tree
  prototype :: "nat option"
  head :: "nat option"
  tail :: "nat option"
  alength :: nat
  target :: "nat option"
  iter_head :: "string list"
  gcmark :: int
  gcnext :: "nat option"

text \<open>
  The memory: the level of the static sentinel record, the objects by address, the next
  address the allocator hands out (it never hands out an address twice), and the two
  fields of \<open>js_State\<close> that \<open>jsV_newobject\<close> writes.
\<close>

record memory =
  sentinel_level :: int
  objs :: "nat \<Rightarrow> js_Object option"
  brk :: nat
  gcobj :: "nat option"
  gccounter :: nat

text \<open>
  Modelled from the spec: \<open>JS_DONTENUM\<close>, the attribute bit "non-enumerable" of
  \<open>jsvalue.h\<close>, which is not among the sources. \<open>dontenum a\<close> is the test
  \<open>a & JS_DONTENUM\<close>.
\<close>

definition JS_DONTENUM :: int where
  "JS_DONTENUM = 2"

definition dontenum :: "int \<Rightarrow> bool" where
  "dontenum a = (and a JS_DONTENUM \<noteq> 0)"

text \<open>
  Reading and writing a record through a pointer to it. The records an object owns are
  the records of its tree; a pointer to a record that is not there is dangling: the
  record was released by \<open>freenode\<close>.
\<close>

fun find_prop :: "tree \<Rightarrow> nat \<Rightarrow> js_Property option" where
  "find_prop Sentinel a = None"
| "find_prop (Node l p r) a =
     (if addr p = a then Some p
      else (case find_prop l a of Some q \<Rightarrow> Some q | None \<Rightarrow> find_prop r a))"

fun update_prop :: "tree \<Rightarrow> nat \<Rightarrow> (js_Property \<Rightarrow> js_Property) \<Rightarrow> tree" where
  "update_prop Sentinel a f = Sentinel"
| "update_prop (Node l p r) a f =
     Node (update_prop l a f) (if addr p = a then f p else p) (update_prop r a f)"

definition write_prop ::
  "memory \<Rightarrow> nat \<Rightarrow> nat \<Rightarrow> (js_Property \<Rightarrow> js_Property) \<Rightarrow> error + memory" where
  "write_prop m oa a f =
     (case objs m oa of
        None \<Rightarrow> Inl UseAfterFree
      | Some obj \<Rightarrow>
          (case find_prop (properties obj) a of
             None \<Rightarrow> Inl UseAfterFree
           | Some q \<Rightarrow>
               Inr (m\<lparr>objs := (objs m)(oa \<mapsto>
                      obj\<lparr>properties := update_prop (properties obj) a f\<rparr>)\<rparr>)))"

definition jsV_newobject :: "memory \<Rightarrow> js_Class \<Rightarrow> nat option \<Rightarrow> memory \<times> nat" where
  "jsV_newobject m ty proto =
     (let obj = \<lparr>otype = ty, properties = Sentinel, prototype = proto, head = None,
                 tail = None, alength = 0, target = None, iter_head = [], gcmark = 0,
                 gcnext = gcobj m\<rparr>
      in (m\<lparr>objs := (objs m)(brk m \<mapsto> obj), brk := Suc (brk m), gcobj := Some (brk m),
             gccounter := gccounter m + 1\<rparr>, brk m))"

definition jsV_getownproperty :: "memory \<Rightarrow> nat \<Rightarrow> string \<Rightarrow> error + js_Property option" where
  "jsV_getownproperty m oa nm =
     (case objs m oa of
        None \<Rightarrow> Inl UseAfterFree
      | Some obj \<Rightarrow> Inr (lookup (properties obj) nm))"

text \<open>
  The loops that follow prototype links or \<open>next\<close> links run forever on a cyclic chain:
  their results are options, \<open>None\<close> for a run that does not return.
\<close>

partial_function (option) jsV_getproperty ::
  "memory \<Rightarrow> nat \<Rightarrow> string \<Rightarrow> (error + js_Property option) option" where
  "jsV_getproperty m oa nm =
     (case objs m oa of
        None \<Rightarrow> Some (Inl UseAfterFree)
      | Some obj \<Rightarrow>
          (case lookup (properties obj) nm of
             Some ref \<Rightarrow> Some (Inr (Some ref))
           | None \<Rightarrow>
               (case prototype obj of
                  None \<Rightarrow> Some (Inr None)
                | Some pa \<Rightarrow> jsV_getproperty m pa nm)))"

declare jsV_getproperty.simps [code]

text \<open>
  \<open>jsV_setproperty\<close>. The result is the new memory and the address of the record. A
  record is created exactly when \<open>*result\<close> is the address the allocator had to hand out.
\<close>

definition jsV_setproperty :: "memory \<Rightarrow> nat \<Rightarrow> string \<Rightarrow> error + (memory \<times> nat)" where
  "jsV_setproperty m oa nm =
     (case objs m oa of
        None \<Rightarrow> Inl UseAfterFree
      | Some obj \<Rightarrow>
          (case insert_node (sentinel_level m) (brk m) (properties obj) nm of
             Inl e \<Rightarrow> Inl e
           | Inr (sl, t, res) \<Rightarrow>
               (let m1 = m\<lparr>sentinel_level := sl,
                            brk := (if res = brk m then Suc (brk m) else brk m)\<rparr>
                in case find_prop t res of
                     None \<Rightarrow> Inl UseAfterFree
                   | Some result \<Rightarrow>
                       if prevp result = None then
                         (case head obj of
                            None \<Rightarrow>
                              Inr (m1\<lparr>objs := (objs m1)(oa \<mapsto>
                                     obj\<lparr>properties :=
                                           update_prop t res (\<lambda>q. q\<lparr>prevp := Some (HeadOf oa)\<rparr>),
                                         head := Some res, tail := Some res\<rparr>)\<rparr>, res)
                          | Some h \<Rightarrow>
                              (case tail obj of
                                 None \<Rightarrow> Inl NullDereference
                               | Some tp \<Rightarrow>
                                   (case find_prop t tp of
                                      None \<Rightarrow> Inl UseAfterFree
                                    | Some q \<Rightarrow>
                                        Inr (m1\<lparr>objs := (objs m1)(oa \<mapsto>
                                               obj\<lparr>properties :=
                                                     update_prop
                                                       (update_prop t res
                                                          (\<lambda>q. q\<lparr>prevp := Some (NextOf tp)\<rparr>))
                                                       tp (\<lambda>q. q\<lparr>next := Some res\<rparr>),
                                                   tail := Some res\<rparr>)\<rparr>, res))))
                       else Inr (m1\<lparr>objs := (objs m1)(oa \<mapsto> obj\<lparr>properties := t\<rparr>)\<rparr>, res))))"

text \<open>
  \<open>freenode\<close>, applied to the record \<open>delete\<close> released: \<open>node\<close> holds the fields the record
  had. The C function gets the record alone; \<open>oa\<close> is the object in whose tree the records
  it points to are looked for.
\<close>

definition freenode :: "memory \<Rightarrow> nat \<Rightarrow> js_Property \<Rightarrow> error + memory" where
  "freenode m oa node =
     (case (case next node of
              None \<Rightarrow> Inr m
            | Some n \<Rightarrow> write_prop m oa n (\<lambda>q. q\<lparr>prevp := prevp node\<rparr>)) of
        Inl e \<Rightarrow> Inl e
      | Inr m1 \<Rightarrow>
          (case prevp node of
             None \<Rightarrow> Inl NullDereference
           | Some (HeadOf ho) \<Rightarrow>
               (case objs m1 ho of
                  None \<Rightarrow> Inl UseAfterFree
                | Some ob \<Rightarrow> Inr (m1\<lparr>objs := (objs m1)(ho \<mapsto> ob\<lparr>head := next node\<rparr>)\<rparr>))
           | Some (NextOf q) \<Rightarrow> write_prop m1 oa q (\<lambda>r. r\<lparr>next := next node\<rparr>)))"

definition jsV_delproperty :: "memory \<Rightarrow> nat \<Rightarrow> string \<Rightarrow> error + memory" where
  "jsV_delproperty m oa nm =
     (case objs m oa of
        None \<Rightarrow> Inl UseAfterFree
      | Some obj \<Rightarrow>
          (case delete (sentinel_level m) (properties obj) nm of
             Inl e \<Rightarrow> Inl e
           | Inr (sl, t, fr) \<Rightarrow>
               (let m1 = m\<lparr>sentinel_level := sl,
                            objs := (objs m)(oa \<mapsto> obj\<lparr>properties := t\<rparr>)\<rparr>
                in case fr of
                     None \<Rightarrow> Inr m1
                   | Some node \<Rightarrow> freenode m1 oa node)))"

text \<open>
  \<open>itshadow\<close>. \<open>topo\<close> and \<open>boto\<close> are \<open>top\<close> and \<open>bot\<close>; \<open>top\<close> becomes \<open>NULL\<close> when its
  chain ends before it reaches \<open>bot\<close>.
\<close>

partial_function (option) itshadow ::
  "memory \<Rightarrow> nat option \<Rightarrow> nat \<Rightarrow> string \<Rightarrow> (error + bool) option" where
  "itshadow m topo boto nm =
     (case topo of
        None \<Rightarrow> Some (Inl NullDereference)
      | Some ta \<Rightarrow>
          if ta = boto then Some (Inr False)
          else (case objs m ta of
                  None \<Rightarrow> Some (Inl UseAfterFree)
                | Some tobj \<Rightarrow>
                    (case lookup (properties tobj) nm of
                       None \<Rightarrow> itshadow m (prototype tobj) boto nm
                     | Some p \<Rightarrow>
                         if \<not> dontenum (atts p) then Some (Inr True)
                         else itshadow m (prototype tobj) boto nm)))"

text \<open>
  \<open>itwalk\<close>: the inner loop over the ordered list of one object, and the outer loop over
  the prototype chain. \<open>acc\<close> is the queue of the iterator, which \<open>jsV_newiterator\<close> has
  emptied.
\<close>

partial_function (option) itwalk_props ::
  "memory \<Rightarrow> nat \<Rightarrow> nat \<Rightarrow> tree \<Rightarrow> nat option \<Rightarrow> string list \<Rightarrow> (error + string list) option"
  where
  "itwalk_props m topo oa t prop acc =
     (case prop of
        None \<Rightarrow> Some (Inr acc)
      | Some a \<Rightarrow>
          (case find_prop t a of
             None \<Rightarrow> Some (Inl UseAfterFree)
           | Some p \<Rightarrow>
               if \<not> dontenum (atts p) then
                 (case itshadow m (Some topo) oa (name p) of
                    None \<Rightarrow> None
                  | Some (Inl e) \<Rightarrow> Some (Inl e)
                  | Some (Inr sh) \<Rightarrow>
                      itwalk_props m topo oa t (next p) (if sh then acc else acc @ [name p]))
               else itwalk_props m topo oa t (next p) acc))"

partial_function (option) itwalk_objs ::
  "memory \<Rightarrow> nat \<Rightarrow> nat option \<Rightarrow> bool \<Rightarrow> string list \<Rightarrow> (error + string list) option" where
  "itwalk_objs m topo obj own acc =
     (case obj of
        None \<Rightarrow> Some (Inr acc)
      | Some oa \<Rightarrow>
          (case objs m oa of
             None \<Rightarrow> Some (Inl UseAfterFree)
           | Some ob \<Rightarrow>
               (case itwalk_props m topo oa (properties ob) (head ob) acc of
                  None \<Rightarrow> None
                | Some (Inl e) \<Rightarrow> Some (Inl e)
                | Some (Inr acc1) \<Rightarrow>
                    if own then Some (Inr acc1)
                    else itwalk_objs m topo (prototype ob) own acc1)))"

declare itshadow.simps [code] itwalk_props.simps [code] itwalk_objs.simps [code]

definition itwalk :: "memory \<Rightarrow> nat \<Rightarrow> bool \<Rightarrow> (error + string list) option" where
  "itwalk m topo own = itwalk_objs m topo (Some topo) own []"

definition jsV_newiterator :: "memory \<Rightarrow> nat \<Rightarrow> bool \<Rightarrow> (error + (memory \<times> nat)) option" where
  "jsV_newiterator m oa own =
     (let (m1, io) = jsV_newobject m JS_CITERATOR None
      in case itwalk m1 oa own of
           None \<Rightarrow> None
         | Some (Inl e) \<Rightarrow> Some (Inl e)
         | Some (Inr names) \<Rightarrow>
             (case objs m1 io of
                None \<Rightarrow> Some (Inl UseAfterFree)
              | Some it \<Rightarrow>
                  Some (Inr (m1\<lparr>objs := (objs m1)(io \<mapsto>
                               it\<lparr>target := Some oa, iter_head := names\<rparr>)\<rparr>, io))))"

text \<open>
  The loop of \<open>jsV_nextiterator\<close> on the queue: the result is the name returned, if any,
  and the rest of the queue.
\<close>

fun next_name ::
  "memory \<Rightarrow> nat \<Rightarrow> string list \<Rightarrow> (error + (string option \<times> string list)) option" where
  "next_name m tg [] = Some (Inr (None, []))"
| "next_name m tg (nm # rest) =
     (case jsV_getproperty m tg nm of
        None \<Rightarrow> None
      | Some (Inl e) \<Rightarrow> Some (Inl e)
      | Some (Inr (Some ref)) \<Rightarrow> Some (Inr (Some nm, rest))
      | Some (Inr None) \<Rightarrow> next_name m tg rest)"

definition jsV_nextiterator ::
  "memory \<Rightarrow> nat \<Rightarrow> (error + (memory \<times> string option)) option" where
  "jsV_nextiterator m io =
     (case objs m io of
        None \<Rightarrow> Some (Inl UseAfterFree)
      | Some it \<Rightarrow>
          if otype it \<noteq> JS_CITERATOR then Some (Inl NotAnIterator)
          else (case iter_head it of
                  [] \<Rightarrow> Some (Inr (m, None))
                | nm # rest \<Rightarrow>
                    (case target it of
                       None \<Rightarrow> Some (Inl NullDereference)
                     | Some tg \<Rightarrow>
                         (case next_name m tg (nm # rest) of
                            None \<Rightarrow> None
                          | Some (Inl e) \<Rightarrow> Some (Inl e)
                          | Some (Inr (res, rest1)) \<Rightarrow>
                              Some (Inr (m\<lparr>objs := (objs m)(io \<mapsto>
                                           it\<lparr>iter_head := rest1\<rparr>)\<rparr>, res))))))"

text \<open>
  \<open>jsV_resizearray\<close>. The conversions \<open>jsV_stringtonumber\<close>, \<open>jsV_numbertouint32\<close> and
  \<open>jsV_numbertostring\<close> are not among the sources: \<open>touint\<close> stands for the first two
  composed, \<open>tostring\<close> for the third.
\<close>

partial_function (option) resize_loop ::
  "(string \<Rightarrow> nat) \<Rightarrow> (nat \<Rightarrow> string) \<Rightarrow> memory \<Rightarrow> nat \<Rightarrow> nat \<Rightarrow> nat \<Rightarrow> (error + memory) option"
  where
  "resize_loop touint tostring m it oa newlen =
     (case jsV_nextiterator m it of
        None \<Rightarrow> None
      | Some (Inl e) \<Rightarrow> Some (Inl e)
      | Some (Inr (m1, None)) \<Rightarrow> Some (Inr m1)
      | Some (Inr (m1, Some s)) \<Rightarrow>
          (let k = touint s in
           if k \<ge> newlen \<and> strcmp s (tostring k) = 0 then
             (case jsV_delproperty m1 oa s of
                Inl e \<Rightarrow> Some (Inl e)
              | Inr m2 \<Rightarrow> resize_loop touint tostring m2 it oa newlen)
           else resize_loop touint tostring m1 it oa newlen))"

declare resize_loop.simps [code]

definition set_length :: "memory \<Rightarrow> nat \<Rightarrow> nat \<Rightarrow> error + memory" where
  "set_length m oa newlen =
     (case objs m oa of
        None \<Rightarrow> Inl UseAfterFree
      | Some obj \<Rightarrow> Inr (m\<lparr>objs := (objs m)(oa \<mapsto> obj\<lparr>alength := newlen\<rparr>)\<rparr>))"

definition jsV_resizearray ::
  "(string \<Rightarrow> nat) \<Rightarrow> (nat \<Rightarrow> string) \<Rightarrow> memory \<Rightarrow> nat \<Rightarrow> nat \<Rightarrow> (error + memory) option"
  where
  "jsV_resizearray touint tostring m oa newlen =
     (case objs m oa of
        None \<Rightarrow> Some (Inl UseAfterFree)
      | Some obj \<Rightarrow>
          if newlen < alength obj then
            (case jsV_newiterator m oa True of
               None \<Rightarrow> None
             | Some (Inl e) \<Rightarrow> Some (Inl e)
             | Some (Inr (m1, it)) \<Rightarrow>
                 (case resize_loop touint tostring m1 it oa newlen of
                    None \<Rightarrow> None
                  | Some (Inl e) \<Rightarrow> Some (Inl e)
                  | Some (Inr m2) \<Rightarrow> Some (set_length m2 oa newlen)))
          else Some (set_length m oa newlen))"

section \<open>Runs of the operations on objects\<close>

text \<open>
  The memory before any allocation, and a caller that sets and deletes properties of one
  object: \<open>Set nm v a\<close> calls \<open>jsV_setproperty\<close> and stores a value and attributes in the
  record it returns, \<open>Del nm\<close> calls \<open>jsV_delproperty\<close>.
\<close>

definition mem0 :: memory where
  "mem0 = \<lparr>sentinel_level = 0, objs = (\<lambda>a. None), brk = 0, gcobj = None, gccounter = 0\<rparr>"

datatype obj_op = Set string js_Value int | Del string

fun obj_step :: "nat \<Rightarrow> memory \<Rightarrow> obj_op \<Rightarrow> error + memory" where
  "obj_step oa m (Set nm v a) =
     (case jsV_setproperty m oa nm of
        Inl e \<Rightarrow> Inl e
      | Inr (m1, res) \<Rightarrow> write_prop m1 oa res (\<lambda>q. q\<lparr>value := v, atts := a\<rparr>))"
| "obj_step oa m (Del nm) = jsV_delproperty m oa nm"

fun obj_run :: "nat \<Rightarrow> memory \<Rightarrow> obj_op list \<Rightarrow> error + memory" where
  "obj_run oa m [] = Inr m"
| "obj_run oa m (x # xs) =
     (case obj_step oa m x of Inl e \<Rightarrow> Inl e | Inr m1 \<Rightarrow> obj_run oa m1 xs)"

text \<open>
  A caller that consumes an iterator to its end, as a for-in loop does: the names
  \<open>jsV_nextiterator\<close> returns until it returns \<open>NULL\<close>.
\<close>

partial_function (option) drain ::
  "memory \<Rightarrow> nat \<Rightarrow> string list \<Rightarrow> (error + (memory \<times> string list)) option" where
  "drain m io acc =
     (case jsV_nextiterator m io of
        None \<Rightarrow> None
      | Some (Inl e) \<Rightarrow> Some (Inl e)
      | Some (Inr (m1, None)) \<Rightarrow> Some (Inr (m1, acc))
      | Some (Inr (m1, Some nm)) \<Rightarrow> drain m1 io (acc @ [nm]))"

declare drain.simps [code]

definition enumerate_names :: "memory \<Rightarrow> nat \<Rightarrow> bool \<Rightarrow> (error + string list) option" where
  "enumerate_names m oa own =
     (case jsV_newiterator m oa own of
        None \<Rightarrow> None
      | Some (Inl e) \<Rightarrow> Some (Inl e)
      | Some (Inr (m1, io)) \<Rightarrow>
          (case drain m1 io [] of
             None \<Rightarrow> None
           | Some (Inl e) \<Rightarrow> Some (Inl e)
           | Some (Inr (m2, names)) \<Rightarrow> Some (Inr names)))"

text \<open>An object without prototype in the empty memory: its address is 0.\<close>

definition new_plain :: memory where
  "new_plain = fst (jsV_newobject mem0 JS_COBJECT None)"

definition undef :: js_Value where
  "undef = \<lparr>vtype = JS_TUNDEFINED, number = 0\<rparr>"

section \<open>Runs on the tree with values, and what they should hold\<close>








section \<open>What the iterator yields\<close>

text \<open>
  The ordered list of an object, read from a pointer \<open>h\<close> to its end: \<open>list_from t h ps\<close>
  holds when following \<open>next\<close> from \<open>h\<close> visits the records \<open>ps\<close> of the tree \<open>t\<close>, in this
  order, and then reaches \<open>NULL\<close>. The records are taken without their level, which the
  list does not read.
\<close>

fun list_from :: "tree \<Rightarrow> nat option \<Rightarrow> js_Property list \<Rightarrow> bool" where
  "list_from t h [] = (h = None)"
| "list_from t h (p # ps) =
     (h = Some (addr p) \<and> map_option unlevel (find_prop t (addr p)) = Some p \<and>
      list_from t (next p) ps)"

text \<open>
  The prototype chain read from a pointer \<open>h\<close> to its end: the objects visited, each with
  its address. A chain that is cyclic, or that reaches a released object, has no such list.
\<close>

fun chain_from :: "memory \<Rightarrow> nat option \<Rightarrow> (nat \<times> js_Object) list \<Rightarrow> bool" where
  "chain_from m h [] = (h = None)"
| "chain_from m h (x # rest) = (h = Some (fst x) \<and> objs m (fst x) = Some (snd x) \<and> chain_from m (prototype (snd x)) rest)"

text \<open>
  What the loop of \<open>jsV_getproperty\<close> returns on such a chain: the first record found under
  the name.
\<close>

fun resolve :: "(nat \<times> js_Object) list \<Rightarrow> string \<Rightarrow> js_Property option" where
  "resolve [] nm = None"
| "resolve (x # rest) nm =
     (case lookup (properties (snd x)) nm of Some ref \<Rightarrow> Some ref | None \<Rightarrow> resolve rest nm)"

text \<open>
  The test of \<open>itshadow\<close> on one object, the objects in front of the current one that pass
  it, and the names \<open>itwalk\<close> appends for one object whose list holds \<open>ps\<close>, when \<open>pre\<close> are
  the objects in front of it; \<open>walk_names\<close> is the queue for the rest of a chain.
\<close>

definition exposes :: "js_Object \<Rightarrow> string \<Rightarrow> bool" where
  "exposes ob nm = (case lookup (properties ob) nm of None \<Rightarrow> False | Some p \<Rightarrow> \<not> dontenum (atts p))"

definition shadowed :: "(nat \<times> js_Object) list \<Rightarrow> string \<Rightarrow> bool" where
  "shadowed pre nm = list_ex (\<lambda>x. exposes (snd x) nm) pre"

definition level_names :: "(nat \<times> js_Object) list \<Rightarrow> js_Property list \<Rightarrow> string list" where
  "level_names pre ps = map name (filter (\<lambda>p. \<not> dontenum (atts p) \<and> \<not> shadowed pre (name p)) ps)"

fun walk_names :: "(nat \<times> js_Object) list \<Rightarrow> (nat \<times> js_Object) list \<Rightarrow> js_Property list list \<Rightarrow> string list" where
  "walk_names pre [] pss = []"
| "walk_names pre (x # rest) [] = []"
| "walk_names pre (x # rest) (ps # pss) = level_names pre ps @ walk_names (pre @ [x]) rest pss"

text \<open>
  The queue of an iterator from the first name that still resolves on, and the test
  \<open>jsV_nextiterator\<close> makes on a name.
\<close>

definition pending :: "(nat \<times> js_Object) list \<Rightarrow> string list \<Rightarrow> string list" where
  "pending ch q = dropWhile (\<lambda>n. resolve ch n = None) q"

definition resolves :: "memory \<Rightarrow> nat \<Rightarrow> string \<Rightarrow> bool" where
  "resolves m tg n = (case jsV_getproperty m tg n of Some (Inr (Some ref)) \<Rightarrow> True | _ \<Rightarrow> False)"

text \<open>
  An object whose list holds exactly the records of its tree, the tree being a search tree.
\<close>

definition listed :: "js_Object \<Rightarrow> js_Property list \<Rightarrow> bool" where
  "listed ob ps =
     (bst (properties ob) \<and> list_from (properties ob) (head ob) ps \<and>
      recs (properties ob) \<subseteq> set ps)"

text \<open>
  From the words of the specification, to be compared with what the iterator yields: the
  keys that survive a sequence of set and delete operations, in the order in which each was
  first inserted. A key that is set again after its deletion is inserted anew.
\<close>

fun first_insertion_order :: "string list \<Rightarrow> obj_op list \<Rightarrow> string list" where
  "first_insertion_order ks [] = ks"
| "first_insertion_order ks (Set nm v a # ops) =
     first_insertion_order (if nm \<in> set ks then ks else ks @ [nm]) ops"
| "first_insertion_order ks (Del nm # ops) = first_insertion_order (removeAll nm ks) ops"

section \<open>Proofs\<close>

subsection \<open>Levels and the two forms of the invariant\<close>

lemma invar_left: "invar (Node l p r) \<Longrightarrow> invar l"
  and invar_right: "invar (Node l p r) \<Longrightarrow> invar r"
  and invar_lv: "invar (Node l p r) \<Longrightarrow> level p = lvl 0 l + 1"
  and invar_rv: "invar (Node l p r) \<Longrightarrow> level p = lvl 0 r + 1 \<or>
         (lvl 0 r = level p \<and> r \<noteq> Sentinel \<and> level p = lvl 0 (right_of r) + 1)"
  unfolding invar.simps by blast+

lemma invar_NodeI:
  "\<lbrakk>invar l; invar r; level p = lvl 0 l + 1;
    level p = lvl 0 r + 1 \<or>
      (lvl 0 r = level p \<and> r \<noteq> Sentinel \<and> level p = lvl 0 (right_of r) + 1)\<rbrakk>
   \<Longrightarrow> invar (Node l p r)"
  unfolding invar.simps by blast

declare invar.simps(2) [simp del]

lemma lvl_nonneg: "invar t \<Longrightarrow> 0 \<le> lvl 0 t"
proof (induction t)
  case Sentinel
  show ?case by simp
next
  case (Node l p r)
  have "0 \<le> lvl 0 l" using Node.IH(1) invar_left[OF Node.prems] by blast
  then have "0 \<le> level p" using invar_lv[OF Node.prems] by linarith
  then show ?case by simp
qed

lemma invar_level_pos: "invar (Node l p r) \<Longrightarrow> 1 \<le> level p"
  using lvl_nonneg[of l] invar_left[of l p r] invar_lv[of l p r] by linarith


lemma lvl_right_of:
  "invar t \<Longrightarrow> lvl 0 (right_of t) \<le> lvl 0 t \<and> lvl 0 t - 1 \<le> lvl 0 (right_of t)"
proof (cases t)
  case Sentinel
  then show ?thesis by simp
next
  case (Node l p r)
  assume "invar t"
  then have "level p = lvl 0 r + 1 \<or>
         (lvl 0 r = level p \<and> r \<noteq> Sentinel \<and> level p = lvl 0 (right_of r) + 1)"
    using Node invar_rv by blast
  then have "lvl 0 r \<le> level p \<and> level p - 1 \<le> lvl 0 r" by linarith
  then show ?thesis using Node by simp
qed

lemma lvl_left_of: "invar t \<Longrightarrow> t \<noteq> Sentinel \<Longrightarrow> lvl 0 (left_of t) = lvl 0 t - 1"
proof (cases t)
  case Sentinel
  assume "t \<noteq> Sentinel"
  then show ?thesis using Sentinel by simp
next
  case (Node l p r)
  assume "invar t"
  then have "level p = lvl 0 l + 1" using Node invar_lv by blast
  then show ?thesis using Node by simp
qed


lemma aa_tree_invar: "aa_tree t \<Longrightarrow> invar t"
proof (induction t)
  case Sentinel
  show ?case by simp
next
  case (Node l p r)
  note P = Node.prems[unfolded aa_tree.simps]
  have al: "aa_tree l" and ar: "aa_tree r" using P by blast+
  have il: "invar l" and ir: "invar r" using Node.IH al ar by blast+
  have 2: "lvl 0 l = level p - 1" using P by blast
  have 3: "lvl 0 r = level p \<or> lvl 0 r = level p - 1" using P by blast
  have 4: "lvl 0 (right_of r) < level p" using P by blast
  have l0: "0 \<le> lvl 0 l" using il lvl_nonneg by blast
  have rr: "lvl 0 r - 1 \<le> lvl 0 (right_of r)" using lvl_right_of[OF ir] by blast
  have "lvl 0 r = level p \<Longrightarrow> r \<noteq> Sentinel" using 2 l0 by (cases r) auto
  then have "level p = lvl 0 r + 1 \<or>
       (lvl 0 r = level p \<and> r \<noteq> Sentinel \<and> level p = lvl 0 (right_of r) + 1)"
    using 3 4 rr by linarith
  moreover have "level p = lvl 0 l + 1" using 2 by linarith
  ultimately show ?case using il ir invar_NodeI by blast
qed

lemma skew_invar: "invar t \<Longrightarrow> skew 0 t = Inr t"
proof (cases t)
  case Sentinel
  then show ?thesis by simp
next
  case (Node l p r)
  assume inv: "invar t"
  have pos: "1 \<le> level p" using inv Node invar_level_pos by blast
  show ?thesis
  proof (cases l)
    case Sentinel
    then show ?thesis using Node pos by simp
  next
    case N2: (Node ll lp lr)
    have "level p = level lp + 1" using invar_lv[of l p r] inv Node N2 by simp
    then have "level lp \<noteq> level p" by linarith
    then show ?thesis using Node N2 by simp
  qed
qed

lemma split_invar:
  assumes "invar t" "t \<noteq> Sentinel"
  shows "split 0 t = Inr (0, t)"
proof (cases t)
  case Sentinel
  then show ?thesis using assms by simp
next
  case (Node l p r)
  have pos: "1 \<le> level p" using assms(1) Node invar_level_pos by blast
  show ?thesis
  proof (cases r)
    case Sentinel
    then show ?thesis using Node pos by simp
  next
    case N2: (Node rl rp rr)
    have "invar r" using assms(1) Node invar_right by blast
    then have "lvl 0 rr \<le> level rp" using lvl_right_of[of r] N2 by simp
    moreover have "level p = level rp + 1 \<or> (level rp = level p \<and> level p = lvl 0 rr + 1)"
      using invar_rv[of l p r] assms(1) Node N2 by simp
    ultimately have "lvl 0 rr \<noteq> level p" by linarith
    then show ?thesis using Node N2 by simp
  qed
qed

lemma post_insD:
  assumes "post_ins t t'"
  shows "invar t'"
    and "lvl 0 t' = lvl 0 t \<or>
       (lvl 0 t' = lvl 0 t + 1 \<and> t' \<noteq> Sentinel \<and>
        lvl 0 (left_of t') = lvl 0 t \<and> lvl 0 (right_of t') = lvl 0 t)"
    and "sngl t \<Longrightarrow> lvl 0 t' = lvl 0 t"
  using assms unfolding post_ins_def by blast+

lemma post_insI:
  "\<lbrakk>invar t';
    lvl 0 t' = lvl 0 t \<or>
       (lvl 0 t' = lvl 0 t + 1 \<and> t' \<noteq> Sentinel \<and>
        lvl 0 (left_of t') = lvl 0 t \<and> lvl 0 (right_of t') = lvl 0 t);
    sngl t \<Longrightarrow> lvl 0 t' = lvl 0 t\<rbrakk> \<Longrightarrow> post_ins t t'"
  unfolding post_ins_def by blast

lemma skew_left_ok:
  assumes "invar l" "level p = lvl 0 l + 1"
  shows "skew 0 (Node l p r) = Inr (Node l p r)"
proof (cases l)
  case Sentinel
  then show ?thesis using assms(2) by simp
next
  case (Node ll lp lr)
  then show ?thesis using assms(2) by simp
qed

lemma insert_node_ok:
  "invar t \<Longrightarrow> \<exists>t' res. insert_node 0 a t nm = Inr (0, t', res) \<and> post_ins t t'"
proof (induction t)
  case Sentinel
  have "invar (Node Sentinel (newproperty a nm) Sentinel)"
    by (rule invar_NodeI) (simp_all add: newproperty_def)
  then have "post_ins Sentinel (Node Sentinel (newproperty a nm) Sentinel)"
    by (rule post_insI) (simp_all add: newproperty_def)
  then show ?case by simp
next
  case (Node l p r)
  let ?t = "Node l p r"
  have il: "invar l" and ir: "invar r" using Node.prems invar_left invar_right by blast+
  have lv: "level p = lvl 0 l + 1" using Node.prems invar_lv by blast
  have rv: "level p = lvl 0 r + 1 \<or>
      (lvl 0 r = level p \<and> r \<noteq> Sentinel \<and> level p = lvl 0 (right_of r) + 1)"
    using Node.prems invar_rv by blast
  consider (lt) "strcmp nm (name p) < 0"
    | (gt) "\<not> strcmp nm (name p) < 0" "strcmp nm (name p) > 0"
    | (eq) "\<not> strcmp nm (name p) < 0" "\<not> strcmp nm (name p) > 0" by blast
  then show ?case
  proof cases
    case lt
    obtain l1 res where I: "insert_node 0 a l nm = Inr (0, l1, res)" and P: "post_ins l l1"
      using Node.IH(1)[OF il] by blast
    have il1: "invar l1" using post_insD(1)[OF P] .
    consider (same) "lvl 0 l1 = lvl 0 l"
      | (incr) "lvl 0 l1 = lvl 0 l + 1" "l1 \<noteq> Sentinel"
               "lvl 0 (left_of l1) = lvl 0 l" "lvl 0 (right_of l1) = lvl 0 l"
      using post_insD(2)[OF P] by blast
    then show ?thesis
    proof cases
      case same
      have inv': "invar (Node l1 p r)"
        using il1 ir lv rv same by - (rule invar_NodeI; simp)
      have "insert_node 0 a ?t nm = Inr (0, Node l1 p r, res)"
        using lt I skew_invar[OF inv'] split_invar[OF inv'] by simp
      moreover have "post_ins ?t (Node l1 p r)"
        using inv' by - (rule post_insI; simp)
      ultimately show ?thesis by blast
    next
      case incr
      obtain x q y where l1: "l1 = Node x q y" using incr(2) by (cases l1) auto
      have lq: "level q = level p" using incr(1) lv l1 by simp
      have lx: "lvl 0 x = lvl 0 l" and ly: "lvl 0 y = lvl 0 l" using incr l1 by simp_all
      have ix: "invar x" and iy: "invar y" using il1 l1 invar_left invar_right by blast+
      have sk: "skew 0 (Node l1 p r) = Inr (Node x q (Node y p r))" using l1 lq by simp
      have iypr: "invar (Node y p r)" using iy ir lv rv ly by - (rule invar_NodeI; simp)
      show ?thesis
      proof (cases "lvl 0 r = level p")
        case True
        let ?p' = "p\<lparr>level := level p + 1\<rparr>"
        have sp: "split 0 (Node x q (Node y p r)) = Inr (0, Node (Node x q y) ?p' r)"
          using True lq by simp
        have ins: "insert_node 0 a ?t nm = Inr (0, Node l1 ?p' r, res)"
          using lt I sk sp l1 by simp
        have "level ?p' = lvl 0 l1 + 1" using l1 lq by simp
        moreover have "level ?p' = lvl 0 r + 1" using True by simp
        ultimately have inv': "invar (Node l1 ?p' r)"
          using il1 ir by - (rule invar_NodeI; blast)
        have "lvl 0 l1 = level p" using l1 lq by simp
        then have "post_ins ?t (Node l1 ?p' r)"
          using inv' True by - (rule post_insI; simp)
        then show ?thesis using ins by blast
      next
        case False
        then have "lvl 0 r \<noteq> level q" using lq by simp
        then have sp: "split 0 (Node x q (Node y p r)) = Inr (0, Node x q (Node y p r))"
          by simp
        have ins: "insert_node 0 a ?t nm = Inr (0, Node x q (Node y p r), res)"
          using lt I sk sp by simp
        have r1: "level p = lvl 0 r + 1" using rv False by blast
        have "level q = lvl 0 x + 1" using lq lv lx by simp
        moreover have "lvl 0 (Node y p r) = level q \<and> Node y p r \<noteq> Sentinel \<and>
            level q = lvl 0 (right_of (Node y p r)) + 1" using lq r1 by simp
        ultimately have inv': "invar (Node x q (Node y p r))"
          using ix iypr by - (rule invar_NodeI; blast)
        have "post_ins ?t (Node x q (Node y p r))"
          using inv' lq r1 by - (rule post_insI; simp)
        then show ?thesis using ins by blast
      qed
    qed
  next
    case gt
    obtain r1 res where I: "insert_node 0 a r nm = Inr (0, r1, res)" and P: "post_ins r r1"
      using Node.IH(2)[OF ir] by blast
    have ir1: "invar r1" using post_insD(1)[OF P] .
    have sk: "skew 0 (Node l p r1) = Inr (Node l p r1)" using skew_left_ok[OF il lv] .
    from rv show ?thesis
    proof
      assume r0: "level p = lvl 0 r + 1"
      have "level p = lvl 0 r1 + 1 \<or>
          (lvl 0 r1 = level p \<and> r1 \<noteq> Sentinel \<and> level p = lvl 0 (right_of r1) + 1)"
        using post_insD(2)[OF P] r0 by auto
      then have inv': "invar (Node l p r1)" using il ir1 lv by - (rule invar_NodeI; blast)
      have "insert_node 0 a ?t nm = Inr (0, Node l p r1, res)"
        using gt I sk split_invar[OF inv'] by simp
      moreover have "post_ins ?t (Node l p r1)"
        using inv' by - (rule post_insI; simp)
      ultimately show ?thesis by blast
    next
      assume r0: "lvl 0 r = level p \<and> r \<noteq> Sentinel \<and> level p = lvl 0 (right_of r) + 1"
      then have "sngl r" by (cases r) auto
      then have lr1: "lvl 0 r1 = level p" using post_insD(3)[OF P] r0 by simp
      have pos: "1 \<le> level p" using Node.prems invar_level_pos by blast
      then obtain x q y where r1: "r1 = Node x q y" using lr1 by (cases r1) auto
      have lq: "level q = level p" using lr1 r1 by simp
      have ix: "invar x" and iy: "invar y" using ir1 r1 invar_left invar_right by blast+
      have qx: "level q = lvl 0 x + 1" using ir1 r1 invar_lv by blast
      have qy: "level q = lvl 0 y + 1 \<or>
         (lvl 0 y = level q \<and> y \<noteq> Sentinel \<and> level q = lvl 0 (right_of y) + 1)"
        using ir1 r1 invar_rv by blast
      show ?thesis
      proof (cases "lvl 0 y = level p")
        case True
        let ?q' = "q\<lparr>level := level q + 1\<rparr>"
        have sp: "split 0 (Node l p (Node x q y)) = Inr (0, Node (Node l p x) ?q' y)"
          using True by simp
        have ins: "insert_node 0 a ?t nm = Inr (0, Node (Node l p x) ?q' y, res)"
          using gt I sk sp r1 by simp
        have "level p = lvl 0 x + 1" using qx lq by simp
        then have ilpx: "invar (Node l p x)" using il ix lv by - (rule invar_NodeI; blast)
        have "level ?q' = lvl 0 (Node l p x) + 1" using lq by simp
        moreover have "level ?q' = lvl 0 y + 1" using True lq by simp
        ultimately have inv': "invar (Node (Node l p x) ?q' y)"
          using ilpx iy by - (rule invar_NodeI; blast)
        have "\<not> sngl ?t" using r0 by simp
        then have "post_ins ?t (Node (Node l p x) ?q' y)"
          using inv' True lq by - (rule post_insI; simp)
        then show ?thesis using ins by blast
      next
        case False
        then have sp: "split 0 (Node l p (Node x q y)) = Inr (0, Node l p (Node x q y))"
          by simp
        have ins: "insert_node 0 a ?t nm = Inr (0, Node l p r1, res)"
          using gt I sk sp r1 by simp
        have "level q = lvl 0 y + 1" using qy False lq by auto
        then have "lvl 0 r1 = level p \<and> r1 \<noteq> Sentinel \<and> level p = lvl 0 (right_of r1) + 1"
          using r1 lq by simp
        then have inv': "invar (Node l p r1)" using il ir1 lv by - (rule invar_NodeI; blast)
        have "post_ins ?t (Node l p r1)"
          using inv' by - (rule post_insI; simp)
        then show ?thesis using ins by blast
      qed
    qed
  next
    case eq
    have "insert_node 0 a ?t nm = Inr (0, ?t, addr p)" using eq by simp
    moreover have "post_ins ?t ?t" using Node.prems by - (rule post_insI; simp)
    ultimately show ?thesis by blast
  qed
qed

lemma skew_neq: "lvl 0 l \<noteq> level p \<Longrightarrow> skew 0 (Node l p r) = Inr (Node l p r)"
  by (cases l) auto

lemma skew_eq:
  "level q = level p \<Longrightarrow> skew 0 (Node (Node a q b) p r) = Inr (Node a q (Node b p r))"
  by simp

lemma split_neq: "lvl 0 (right_of r) \<noteq> level p \<Longrightarrow> split 0 (Node l p r) = Inr (0, Node l p r)"
  by (cases r) auto

lemma split_eq:
  "lvl 0 y = level p \<Longrightarrow>
   split 0 (Node l p (Node x u y)) = Inr (0, Node (Node l p x) (u\<lparr>level := level u + 1\<rparr>) y)"
  by simp

lemma rebalance_skip:
  "\<not> lvl sl l < level p - 1 \<Longrightarrow> \<not> lvl sl r < level p - 1 \<Longrightarrow>
   rebalance sl (Node l p r) = Inr (sl, Node l p r)"
  by simp

lemma rebalance_steps:
  assumes "lvl sl l < level p - 1 \<or> lvl sl r < level p - 1"
    and "(if lvl sl r > level p - 1 then set_level sl r (level p - 1) else (sl, r)) = (sl1, r1)"
    and "skew sl1 (Node l (p\<lparr>level := level p - 1\<rparr>) r1) = Inr t1"
    and "skew_right sl1 t1 = Inr t2"
    and "skew_right_right sl1 t2 = Inr t3"
    and "split sl1 t3 = Inr (sl2, t4)"
  shows "rebalance sl (Node l p r) = split_right sl2 t4"
  using assms by (cases "level p - 1 < lvl sl r") (simp_all add: Let_def del: skew.simps split.simps skew_right.simps skew_right_right.simps
      split_right.simps set_level.simps)

lemma invar_Node_ex: "invar t \<Longrightarrow> 1 \<le> lvl 0 t \<Longrightarrow> \<exists>l p r. t = Node l p r"
  by (cases t) auto

lemma rebalance_invar: "invar t \<Longrightarrow> rebalance 0 t = Inr (0, t)"
proof (cases t)
  case Sentinel
  then show ?thesis by simp
next
  case (Node l p r)
  assume inv: "invar t"
  have "level p = lvl 0 l + 1" using inv Node invar_lv by blast
  then have 1: "\<not> lvl 0 l < level p - 1" by linarith
  have "level p = lvl 0 r + 1 \<or>
      (lvl 0 r = level p \<and> r \<noteq> Sentinel \<and> level p = lvl 0 (right_of r) + 1)"
    using inv Node invar_rv by blast
  then have 2: "\<not> lvl 0 r < level p - 1" by linarith
  show ?thesis unfolding Node using rebalance_skip[OF 1 2] .
qed

lemma rebalance_rdown:
  assumes il: "invar l" and ir: "invar r"
    and lv: "level p = lvl 0 l + 1" and rv: "level p = lvl 0 r + 2"
  shows "\<exists>t'. post_reb l p r t'"
proof -
  let ?p1 = "p\<lparr>level := level p - 1\<rparr>"
  have r0: "0 \<le> lvl 0 r" using lvl_nonneg[OF ir] .
  have "1 \<le> lvl 0 l" using lv rv r0 by linarith
  then obtain a q b where l: "l = Node a q b" using invar_Node_ex[OF il] by blast
  have ia: "invar a" and ib: "invar b" using il l invar_left invar_right by blast+
  have lq: "level q = level p - 1" using lv l by simp
  have qa: "level q = lvl 0 a + 1" using il l invar_lv by blast
  have qb: "level q = lvl 0 b + 1 \<or>
      (lvl 0 b = level q \<and> b \<noteq> Sentinel \<and> level q = lvl 0 (right_of b) + 1)"
    using il l invar_rv by blast
  have fire: "lvl 0 l < level p - 1 \<or> lvl 0 r < level p - 1" using rv by linarith
  have clamp: "(if lvl 0 r > level p - 1 then set_level 0 r (level p - 1) else (0, r)) = (0, r)"
    using rv by simp
  have s1: "skew 0 (Node l ?p1 r) = Inr (Node a q (Node b ?p1 r))"
    unfolding l using lq by (intro skew_eq) simp
  have rr: "lvl 0 (right_of r) \<noteq> level ?p1" using lvl_right_of[OF ir] rv by simp
  from qb show ?thesis
  proof
    assume b1: "level q = lvl 0 b + 1"
    have "lvl 0 b \<noteq> level ?p1" using b1 lq by simp
    then have "skew 0 (Node b ?p1 r) = Inr (Node b ?p1 r)" by (rule skew_neq)
    then have s2: "skew_right 0 (Node a q (Node b ?p1 r)) = Inr (Node a q (Node b ?p1 r))"
      by simp
    have s3: "skew_right_right 0 (Node a q (Node b ?p1 r)) = Inr (Node a q (Node b ?p1 r))"
      using skew_invar[OF ir] by simp
    have "lvl 0 r \<noteq> level q" using lq rv by simp
    then have s4: "split 0 (Node a q (Node b ?p1 r)) = Inr (0, Node a q (Node b ?p1 r))"
      by simp
    have s5: "split_right 0 (Node a q (Node b ?p1 r)) = Inr (0, Node a q (Node b ?p1 r))"
      using split_neq[OF rr] by simp
    have reb: "rebalance 0 (Node l p r) = Inr (0, Node a q (Node b ?p1 r))"
      using rebalance_steps[OF fire clamp s1 s2 s3 s4] s5 by simp
    have "level ?p1 = lvl 0 b + 1" "level ?p1 = lvl 0 r + 1" using b1 lq rv by simp_all
    then have i1: "invar (Node b ?p1 r)" using ib ir by - (rule invar_NodeI; blast)
    have "lvl 0 (Node b ?p1 r) = level q \<and> Node b ?p1 r \<noteq> Sentinel \<and>
        level q = lvl 0 (right_of (Node b ?p1 r)) + 1" using lq rv by simp
    then have i2: "invar (Node a q (Node b ?p1 r))" using ia i1 qa by - (rule invar_NodeI; blast)
    have "post_reb l p r (Node a q (Node b ?p1 r))"
      unfolding post_reb_def using reb i2 lq by simp
    then show ?thesis by blast
  next
    assume b2: "lvl 0 b = level q \<and> b \<noteq> Sentinel \<and> level q = lvl 0 (right_of b) + 1"
    then obtain c s d where b: "b = Node c s d" by (cases b) auto
    have ic: "invar c" and id: "invar d" using ib b invar_left invar_right by blast+
    have ls: "level s = level q" using b2 b by simp
    have sc: "level s = lvl 0 c + 1" using ib b invar_lv by blast
    have sd: "level q = lvl 0 d + 1" using b2 b by simp
    have "skew 0 (Node b ?p1 r) = Inr (Node c s (Node d ?p1 r))"
      unfolding b using ls lq by (intro skew_eq) simp
    then have s2: "skew_right 0 (Node a q (Node b ?p1 r)) = Inr (Node a q (Node c s (Node d ?p1 r)))"
      by simp
    have "lvl 0 d \<noteq> level ?p1" using sd lq by simp
    then have "skew 0 (Node d ?p1 r) = Inr (Node d ?p1 r)" by (rule skew_neq)
    then have s3: "skew_right_right 0 (Node a q (Node c s (Node d ?p1 r)))
        = Inr (Node a q (Node c s (Node d ?p1 r)))" by simp
    let ?s' = "s\<lparr>level := level s + 1\<rparr>"
    have s4: "split 0 (Node a q (Node c s (Node d ?p1 r)))
        = Inr (0, Node (Node a q c) ?s' (Node d ?p1 r))"
      using lq by (intro split_eq) simp
    have s5: "split_right 0 (Node (Node a q c) ?s' (Node d ?p1 r))
        = Inr (0, Node (Node a q c) ?s' (Node d ?p1 r))"
      using split_neq[OF rr] by simp
    have reb: "rebalance 0 (Node l p r) = Inr (0, Node (Node a q c) ?s' (Node d ?p1 r))"
      using rebalance_steps[OF fire clamp s1 s2 s3 s4] s5 by simp
    have "level q = lvl 0 c + 1" using ls sc by simp
    then have i1: "invar (Node a q c)" using ia ic qa by - (rule invar_NodeI; blast)
    have "level ?p1 = lvl 0 d + 1" "level ?p1 = lvl 0 r + 1" using sd lq rv by simp_all
    then have i2: "invar (Node d ?p1 r)" using id ir by - (rule invar_NodeI; blast)
    have "level ?s' = lvl 0 (Node a q c) + 1" "level ?s' = lvl 0 (Node d ?p1 r) + 1"
      using ls lq by simp_all
    then have i3: "invar (Node (Node a q c) ?s' (Node d ?p1 r))"
      using i1 i2 by - (rule invar_NodeI; blast)
    have "post_reb l p r (Node (Node a q c) ?s' (Node d ?p1 r))"
      unfolding post_reb_def using reb i3 lq ls by simp
    then show ?thesis by blast
  qed
qed

lemma rebalance_ldown_sngl:
  assumes il: "invar l" and ir: "invar r"
    and lv: "level p = lvl 0 l + 2" and rv: "level p = lvl 0 r + 1"
  shows "\<exists>t'. post_reb l p r t'"
proof -
  let ?p1 = "p\<lparr>level := level p - 1\<rparr>"
  have l0: "0 \<le> lvl 0 l" using lvl_nonneg[OF il] .
  have "1 \<le> lvl 0 r" using lv rv l0 by linarith
  then obtain x u y where r: "r = Node x u y" using invar_Node_ex[OF ir] by blast
  have rne: "r \<noteq> Sentinel" using r by simp
  have ix: "invar x" and iy: "invar y" using ir r invar_left invar_right by blast+
  have lu: "level u = level p - 1" using rv r by simp
  have ux: "level u = lvl 0 x + 1" using ir r invar_lv by blast
  have uy: "level u = lvl 0 y + 1 \<or>
      (lvl 0 y = level u \<and> y \<noteq> Sentinel \<and> level u = lvl 0 (right_of y) + 1)"
    using ir r invar_rv by blast
  have fire: "lvl 0 l < level p - 1 \<or> lvl 0 r < level p - 1" using lv by linarith
  have clamp: "(if lvl 0 r > level p - 1 then set_level 0 r (level p - 1) else (0, r)) = (0, r)"
    using rv by simp
  have "lvl 0 l \<noteq> level ?p1" using lv by simp
  then have s1: "skew 0 (Node l ?p1 r) = Inr (Node l ?p1 r)" by (rule skew_neq)
  have s2: "skew_right 0 (Node l ?p1 r) = Inr (Node l ?p1 r)"
    using skew_invar[OF ir] by simp
  have s3: "skew_right_right 0 (Node l ?p1 r) = Inr (Node l ?p1 r)"
    unfolding r using skew_invar[OF iy] by simp
  from uy show ?thesis
  proof
    assume y1: "level u = lvl 0 y + 1"
    have "lvl 0 (right_of r) \<noteq> level ?p1" using y1 lu r by simp
    then have s4: "split 0 (Node l ?p1 r) = Inr (0, Node l ?p1 r)" by (rule split_neq)
    have s5: "split_right 0 (Node l ?p1 r) = Inr (0, Node l ?p1 r)"
      using split_invar[OF ir rne] by simp
    have reb: "rebalance 0 (Node l p r) = Inr (0, Node l ?p1 r)"
      using rebalance_steps[OF fire clamp s1 s2 s3 s4] s5 by simp
    have "level ?p1 = lvl 0 l + 1" using lv by simp
    moreover have "lvl 0 r = level ?p1 \<and> r \<noteq> Sentinel \<and> level ?p1 = lvl 0 (right_of r) + 1"
      using rv rne y1 lu r by simp
    ultimately have i1: "invar (Node l ?p1 r)" using il ir by - (rule invar_NodeI; blast)
    have "post_reb l p r (Node l ?p1 r)"
      unfolding post_reb_def using reb i1 by simp
    then show ?thesis by blast
  next
    assume y2: "lvl 0 y = level u \<and> y \<noteq> Sentinel \<and> level u = lvl 0 (right_of y) + 1"
    let ?u' = "u\<lparr>level := level u + 1\<rparr>"
    have yne: "y \<noteq> Sentinel" using y2 by blast
    have s4: "split 0 (Node l ?p1 r) = Inr (0, Node (Node l ?p1 x) ?u' y)"
      unfolding r using y2 lu by (intro split_eq) simp
    have s5: "split_right 0 (Node (Node l ?p1 x) ?u' y) = Inr (0, Node (Node l ?p1 x) ?u' y)"
      using split_invar[OF iy yne] by simp
    have reb: "rebalance 0 (Node l p r) = Inr (0, Node (Node l ?p1 x) ?u' y)"
      using rebalance_steps[OF fire clamp s1 s2 s3 s4] s5 by simp
    have "level ?p1 = lvl 0 l + 1" "level ?p1 = lvl 0 x + 1" using lv ux lu by simp_all
    then have i1: "invar (Node l ?p1 x)" using il ix by - (rule invar_NodeI; blast)
    have "level ?u' = lvl 0 (Node l ?p1 x) + 1" "level ?u' = lvl 0 y + 1"
      using lu y2 by simp_all
    then have i2: "invar (Node (Node l ?p1 x) ?u' y)" using i1 iy by - (rule invar_NodeI; blast)
    have "post_reb l p r (Node (Node l ?p1 x) ?u' y)"
      unfolding post_reb_def using reb i2 lu y2 by simp
    then show ?thesis by blast
  qed
qed

lemma rebalance_ldown_double:
  assumes il: "invar l" and ir: "invar r"
    and lv: "level p = lvl 0 l + 2"
    and rv: "lvl 0 r = level p" "r \<noteq> Sentinel" "level p = lvl 0 (right_of r) + 1"
  shows "\<exists>t'. post_reb l p r t'"
proof -
  let ?p1 = "p\<lparr>level := level p - 1\<rparr>"
  have l0: "0 \<le> lvl 0 l" using lvl_nonneg[OF il] .
  obtain x u y where r: "r = Node x u y" using rv(2) by (cases r) auto
  have ix: "invar x" and iy: "invar y" using ir r invar_left invar_right by blast+
  have lu: "level u = level p" using rv(1) r by simp
  have ux: "level p = lvl 0 x + 1" using invar_lv[of x u y] ir r lu by simp
  have uy: "level p = lvl 0 y + 1" using rv(3) r by simp
  let ?u1 = "u\<lparr>level := level p - 1\<rparr>"
  have "1 \<le> lvl 0 x" using ux lv l0 by linarith
  then obtain a q b where x: "x = Node a q b" using invar_Node_ex[OF ix] by blast
  have ia: "invar a" and ib: "invar b" using ix x invar_left invar_right by blast+
  have lq: "level q = level p - 1" using ux x by simp
  have qa: "level q = lvl 0 a + 1" using ix x invar_lv by blast
  have qb: "level q = lvl 0 b + 1 \<or>
      (lvl 0 b = level q \<and> b \<noteq> Sentinel \<and> level q = lvl 0 (right_of b) + 1)"
    using ix x invar_rv by blast
  have "1 \<le> lvl 0 y" using uy lv l0 by linarith
  then obtain e v f where y: "y = Node e v f" using invar_Node_ex[OF iy] by blast
  have ie: "invar e" and "invar f" using iy y invar_left invar_right by blast+
  have lvv: "level v = level p - 1" using uy y by simp
  have ve: "level v = lvl 0 e + 1" using iy y invar_lv by blast
  have vf: "level v = lvl 0 f + 1 \<or>
      (lvl 0 f = level v \<and> f \<noteq> Sentinel \<and> level v = lvl 0 (right_of f) + 1)"
    using iy y invar_rv by blast
  have fire: "lvl 0 l < level p - 1 \<or> lvl 0 r < level p - 1" using lv by linarith
  have clamp: "(if lvl 0 r > level p - 1 then set_level 0 r (level p - 1) else (0, r))
      = (0, Node x ?u1 y)"
    using rv(1) r by simp
  have "lvl 0 l \<noteq> level ?p1" using lv by simp
  then have s1: "skew 0 (Node l ?p1 (Node x ?u1 y)) = Inr (Node l ?p1 (Node x ?u1 y))"
    by (rule skew_neq)
  have "skew 0 (Node x ?u1 y) = Inr (Node a q (Node b ?u1 y))"
    unfolding x using lq by (intro skew_eq) simp
  then have s2: "skew_right 0 (Node l ?p1 (Node x ?u1 y))
      = Inr (Node l ?p1 (Node a q (Node b ?u1 y)))" by simp
  let ?q' = "q\<lparr>level := level q + 1\<rparr>"
  from qb show ?thesis
  proof
    assume b1: "level q = lvl 0 b + 1"
    have "lvl 0 b \<noteq> level ?u1" using b1 lq by simp
    then have "skew 0 (Node b ?u1 y) = Inr (Node b ?u1 y)" by (rule skew_neq)
    then have s3: "skew_right_right 0 (Node l ?p1 (Node a q (Node b ?u1 y)))
        = Inr (Node l ?p1 (Node a q (Node b ?u1 y)))" by simp
    have s4: "split 0 (Node l ?p1 (Node a q (Node b ?u1 y)))
        = Inr (0, Node (Node l ?p1 a) ?q' (Node b ?u1 y))"
      by (intro split_eq) simp
    have "level ?p1 = lvl 0 l + 1" "level ?p1 = lvl 0 a + 1" using lv qa lq by simp_all
    then have i1: "invar (Node l ?p1 a)" using il ia by - (rule invar_NodeI; blast)
    from vf show ?thesis
    proof
      assume f1: "level v = lvl 0 f + 1"
      have "lvl 0 (right_of y) \<noteq> level ?u1" using f1 lvv y by simp
      then have "split 0 (Node b ?u1 y) = Inr (0, Node b ?u1 y)" by (rule split_neq)
      then have s5: "split_right 0 (Node (Node l ?p1 a) ?q' (Node b ?u1 y))
          = Inr (0, Node (Node l ?p1 a) ?q' (Node b ?u1 y))" by simp
      have reb: "rebalance 0 (Node l p r) = Inr (0, Node (Node l ?p1 a) ?q' (Node b ?u1 y))"
        using rebalance_steps[OF fire clamp s1 s2 s3 s4] s5 by simp
      have "level ?u1 = lvl 0 b + 1" using b1 lq by simp
      moreover have "lvl 0 y = level ?u1 \<and> y \<noteq> Sentinel \<and> level ?u1 = lvl 0 (right_of y) + 1"
        using uy y f1 lvv by simp
      ultimately have i2: "invar (Node b ?u1 y)" using ib iy by - (rule invar_NodeI; blast)
      have "level ?q' = lvl 0 (Node l ?p1 a) + 1" "level ?q' = lvl 0 (Node b ?u1 y) + 1"
        using lq by simp_all
      then have i3: "invar (Node (Node l ?p1 a) ?q' (Node b ?u1 y))"
        using i1 i2 by - (rule invar_NodeI; blast)
      have "post_reb l p r (Node (Node l ?p1 a) ?q' (Node b ?u1 y))"
        unfolding post_reb_def using reb i3 lq rv(1) by simp
      then show ?thesis by blast
    next
      assume f2: "lvl 0 f = level v \<and> f \<noteq> Sentinel \<and> level v = lvl 0 (right_of f) + 1"
      let ?v' = "v\<lparr>level := level v + 1\<rparr>"
      have "split 0 (Node b ?u1 y) = Inr (0, Node (Node b ?u1 e) ?v' f)"
        unfolding y using f2 lvv by (intro split_eq) simp
      then have s5: "split_right 0 (Node (Node l ?p1 a) ?q' (Node b ?u1 y))
          = Inr (0, Node (Node l ?p1 a) ?q' (Node (Node b ?u1 e) ?v' f))" by simp
      have reb: "rebalance 0 (Node l p r)
          = Inr (0, Node (Node l ?p1 a) ?q' (Node (Node b ?u1 e) ?v' f))"
        using rebalance_steps[OF fire clamp s1 s2 s3 s4] s5 by simp
      have "level ?u1 = lvl 0 b + 1" "level ?u1 = lvl 0 e + 1" using b1 lq ve lvv by simp_all
      then have i2: "invar (Node b ?u1 e)" using ib ie by - (rule invar_NodeI; blast)
      have "level ?v' = lvl 0 (Node b ?u1 e) + 1" "level ?v' = lvl 0 f + 1"
        using lvv f2 by simp_all
      then have i3: "invar (Node (Node b ?u1 e) ?v' f)"
        using i2 \<open>invar f\<close> by - (rule invar_NodeI; blast)
      have "level ?q' = lvl 0 (Node l ?p1 a) + 1" using lq by simp
      moreover have "lvl 0 (Node (Node b ?u1 e) ?v' f) = level ?q' \<and>
          Node (Node b ?u1 e) ?v' f \<noteq> Sentinel \<and>
          level ?q' = lvl 0 (right_of (Node (Node b ?u1 e) ?v' f)) + 1"
        using lq lvv f2 by simp
      ultimately have i4: "invar (Node (Node l ?p1 a) ?q' (Node (Node b ?u1 e) ?v' f))"
        using i1 i3 by - (rule invar_NodeI; blast)
      have "post_reb l p r (Node (Node l ?p1 a) ?q' (Node (Node b ?u1 e) ?v' f))"
        unfolding post_reb_def using reb i4 lq rv(1) by simp
      then show ?thesis by blast
    qed
  next
    assume b2: "lvl 0 b = level q \<and> b \<noteq> Sentinel \<and> level q = lvl 0 (right_of b) + 1"
    then obtain c s d where b: "b = Node c s d" by (cases b) auto
    have ic: "invar c" and id: "invar d" using ib b invar_left invar_right by blast+
    have ls: "level s = level q" using b2 b by simp
    have sc: "level s = lvl 0 c + 1" using ib b invar_lv by blast
    have sd: "level q = lvl 0 d + 1" using b2 b by simp
    have "skew 0 (Node b ?u1 y) = Inr (Node c s (Node d ?u1 y))"
      unfolding b using ls lq by (intro skew_eq) simp
    then have s3: "skew_right_right 0 (Node l ?p1 (Node a q (Node b ?u1 y)))
        = Inr (Node l ?p1 (Node a q (Node c s (Node d ?u1 y))))" by simp
    have s4: "split 0 (Node l ?p1 (Node a q (Node c s (Node d ?u1 y))))
        = Inr (0, Node (Node l ?p1 a) ?q' (Node c s (Node d ?u1 y)))"
      using ls lq by (intro split_eq) simp
    let ?u' = "?u1\<lparr>level := level ?u1 + 1\<rparr>"
    have "split 0 (Node c s (Node d ?u1 y)) = Inr (0, Node (Node c s d) ?u' y)"
      using ls lq uy by (intro split_eq) simp
    then have s5: "split_right 0 (Node (Node l ?p1 a) ?q' (Node c s (Node d ?u1 y)))
        = Inr (0, Node (Node l ?p1 a) ?q' (Node (Node c s d) ?u' y))" by simp
    have reb: "rebalance 0 (Node l p r)
        = Inr (0, Node (Node l ?p1 a) ?q' (Node (Node c s d) ?u' y))"
      using rebalance_steps[OF fire clamp s1 s2 s3 s4] s5 by simp
    have "level ?p1 = lvl 0 l + 1" "level ?p1 = lvl 0 a + 1" using lv qa lq by simp_all
    then have i1: "invar (Node l ?p1 a)" using il ia by - (rule invar_NodeI; blast)
    have "level s = lvl 0 d + 1" using ls sd by simp
    then have i2: "invar (Node c s d)" using ic id sc by - (rule invar_NodeI; blast)
    have "level ?u' = lvl 0 (Node c s d) + 1" "level ?u' = lvl 0 y + 1"
      using ls lq uy by simp_all
    then have i3: "invar (Node (Node c s d) ?u' y)" using i2 iy by - (rule invar_NodeI; blast)
    have "level ?q' = lvl 0 (Node l ?p1 a) + 1" using lq by simp
    moreover have "lvl 0 (Node (Node c s d) ?u' y) = level ?q' \<and>
        Node (Node c s d) ?u' y \<noteq> Sentinel \<and>
        level ?q' = lvl 0 (right_of (Node (Node c s d) ?u' y)) + 1"
      using lq uy by simp
    ultimately have i4: "invar (Node (Node l ?p1 a) ?q' (Node (Node c s d) ?u' y))"
      using i1 i3 by - (rule invar_NodeI; blast)
    have "post_reb l p r (Node (Node l ?p1 a) ?q' (Node (Node c s d) ?u' y))"
      unfolding post_reb_def using reb i4 lq rv(1) by simp
    then show ?thesis by blast
  qed
qed

lemma post_delD:
  assumes "post_del t t'"
  shows "invar t'"
    and "lvl 0 t' = lvl 0 t \<or> lvl 0 t' + 1 = lvl 0 t"
    and "lvl 0 t' = lvl 0 t \<Longrightarrow> sngl t \<Longrightarrow> sngl t'"
  using assms unfolding post_del_def by blast+

lemma post_delI:
  "\<lbrakk>invar t'; lvl 0 t' = lvl 0 t \<or> lvl 0 t' + 1 = lvl 0 t;
    lvl 0 t' = lvl 0 t \<and> sngl t \<longrightarrow> sngl t'\<rbrakk> \<Longrightarrow> post_del t t'"
  unfolding post_del_def by blast

lemma post_rebD:
  assumes "post_reb l p r t'"
  shows "rebalance 0 (Node l p r) = Inr (0, t')" and "invar t'"
    and "lvl 0 t' = level p \<or> lvl 0 t' + 1 = level p"
    and "lvl 0 r < level p \<and> lvl 0 t' = level p \<longrightarrow> sngl t'"
  using assms unfolding post_reb_def by blast+

lemma post_reb_invar:
  assumes "invar (Node l p r)"
  shows "post_reb l p r (Node l p r)"
  unfolding post_reb_def using rebalance_invar[OF assms] assms by simp

lemma rebalance_left:
  assumes inv: "invar (Node l p r)" and pd: "post_del l l1"
  shows "\<exists>t'. rebalance 0 (Node l1 p r) = Inr (0, t') \<and> post_del (Node l p r) t'"
proof -
  have ir: "invar r" using inv invar_right by blast
  have lv: "level p = lvl 0 l + 1" using inv invar_lv by blast
  have rv: "level p = lvl 0 r + 1 \<or>
      (lvl 0 r = level p \<and> r \<noteq> Sentinel \<and> level p = lvl 0 (right_of r) + 1)"
    using inv invar_rv by blast
  have il1: "invar l1" using post_delD(1)[OF pd] .
  have "\<exists>t'. post_reb l1 p r t'"
    using post_delD(2)[OF pd]
  proof
    assume "lvl 0 l1 = lvl 0 l"
    then have "level p = lvl 0 l1 + 1" using lv by simp
    then have "invar (Node l1 p r)" using il1 ir rv by - (rule invar_NodeI; blast)
    then show ?thesis using post_reb_invar by blast
  next
    assume "lvl 0 l1 + 1 = lvl 0 l"
    then have lv1: "level p = lvl 0 l1 + 2" using lv by linarith
    from rv show ?thesis
    proof
      assume "level p = lvl 0 r + 1"
      then show ?thesis using rebalance_ldown_sngl[OF il1 ir lv1] by blast
    next
      assume "lvl 0 r = level p \<and> r \<noteq> Sentinel \<and> level p = lvl 0 (right_of r) + 1"
      then show ?thesis using rebalance_ldown_double[OF il1 ir lv1] by blast
    qed
  qed
  then obtain t' where pr: "post_reb l1 p r t'" by blast
  have "post_del (Node l p r) t'"
    using post_rebD(2,3,4)[OF pr] by - (rule post_delI; simp)
  then show ?thesis using post_rebD(1)[OF pr] by blast
qed

lemma rebalance_right:
  assumes inv: "invar (Node l p r)" and pd: "post_del r r1" and lp: "level p' = level p"
  shows "\<exists>t'. rebalance 0 (Node l p' r1) = Inr (0, t') \<and> post_del (Node l p r) t'"
proof -
  have il: "invar l" using inv invar_left by blast
  have lv: "level p' = lvl 0 l + 1" using inv invar_lv lp by simp
  have rv: "level p' = lvl 0 r + 1 \<or>
      (lvl 0 r = level p' \<and> r \<noteq> Sentinel \<and> level p' = lvl 0 (right_of r) + 1)"
    using invar_rv[OF inv] lp by simp
  have ir1: "invar r1" using post_delD(1)[OF pd] .
  have "\<exists>t'. post_reb l p' r1 t' \<and> (lvl 0 t' = level p' \<and> lvl 0 r < level p' \<longrightarrow> sngl t')"
    using post_delD(2)[OF pd]
  proof
    assume same: "lvl 0 r1 = lvl 0 r"
    have "level p' = lvl 0 r1 + 1 \<or>
      (lvl 0 r1 = level p' \<and> r1 \<noteq> Sentinel \<and> level p' = lvl 0 (right_of r1) + 1)"
      using rv
    proof
      assume "level p' = lvl 0 r + 1"
      then show ?thesis using same by simp
    next
      assume d: "lvl 0 r = level p' \<and> r \<noteq> Sentinel \<and> level p' = lvl 0 (right_of r) + 1"
      then have "sngl r" by (cases r) auto
      then have s1: "sngl r1" using post_delD(3)[OF pd same] by blast
      then have ne: "r1 \<noteq> Sentinel" by (cases r1) auto
      have "lvl 0 (right_of r1) < lvl 0 r1" using s1 by (cases r1) auto
      then have "lvl 0 r1 = lvl 0 (right_of r1) + 1" using lvl_right_of[OF ir1] by linarith
      then show ?thesis using d same ne by simp
    qed
    then have i: "invar (Node l p' r1)" using il ir1 lv by - (rule invar_NodeI; blast)
    have "lvl 0 r < level p' \<longrightarrow> sngl (Node l p' r1)" using same by simp
    then show ?thesis using post_reb_invar[OF i] by blast
  next
    assume down: "lvl 0 r1 + 1 = lvl 0 r"
    from rv show ?thesis
    proof
      assume "level p' = lvl 0 r + 1"
      then have rv1: "level p' = lvl 0 r1 + 2" using down by linarith
      obtain t' where pr: "post_reb l p' r1 t'" using rebalance_rdown[OF il ir1 lv rv1] by blast
      have "lvl 0 r1 < level p'" using rv1 by linarith
      then have "lvl 0 t' = level p' \<longrightarrow> sngl t'" using post_rebD(4)[OF pr] by blast
      then show ?thesis using pr by blast
    next
      assume d: "lvl 0 r = level p' \<and> r \<noteq> Sentinel \<and> level p' = lvl 0 (right_of r) + 1"
      then have "level p' = lvl 0 r1 + 1" using down by linarith
      then have i: "invar (Node l p' r1)" using il ir1 lv by - (rule invar_NodeI; blast)
      have "\<not> lvl 0 r < level p'" using d by simp
      then show ?thesis using post_reb_invar[OF i] by blast
    qed
  qed
  then obtain t' where pr: "post_reb l p' r1 t'"
    and sn: "lvl 0 t' = level p' \<and> lvl 0 r < level p' \<longrightarrow> sngl t'" by blast
  have "post_del (Node l p r) t'"
    using post_rebD(2,3)[OF pr] sn lp by - (rule post_delI; simp)
  then show ?thesis using post_rebD(1)[OF pr] by blast
qed

lemma delete_ok:
  "invar t \<Longrightarrow> \<exists>t' fr. delete 0 t nm = Inr (0, t', fr) \<and> post_del t t'"
proof (induction t arbitrary: nm)
  case Sentinel
  have "post_del Sentinel Sentinel" by (rule post_delI) simp_all
  then show ?case by simp
next
  case (Node l p r)
  let ?t = "Node l p r"
  have il: "invar l" and ir: "invar r" using Node.prems invar_left invar_right by blast+
  have lv: "level p = lvl 0 l + 1" using Node.prems invar_lv by blast
  have rv: "level p = lvl 0 r + 1 \<or>
      (lvl 0 r = level p \<and> r \<noteq> Sentinel \<and> level p = lvl 0 (right_of r) + 1)"
    using Node.prems invar_rv by blast
  consider (lt) "strcmp nm (name p) < 0"
    | (gt) "\<not> strcmp nm (name p) < 0" "strcmp nm (name p) > 0"
    | (eq) "\<not> strcmp nm (name p) < 0" "\<not> strcmp nm (name p) > 0" by blast
  then show ?case
  proof cases
    case lt
    obtain l1 fr where D: "delete 0 l nm = Inr (0, l1, fr)" and P: "post_del l l1"
      using Node.IH(1)[OF il] by blast
    obtain t' where "rebalance 0 (Node l1 p r) = Inr (0, t')" "post_del ?t t'"
      using rebalance_left[OF Node.prems P] by blast
    then have "delete 0 ?t nm = Inr (0, t', fr) \<and> post_del ?t t'"
      using lt D by simp
    then show ?thesis by blast
  next
    case gt
    obtain r1 fr where D: "delete 0 r nm = Inr (0, r1, fr)" and P: "post_del r r1"
      using Node.IH(2)[OF ir] by blast
    obtain t' where "rebalance 0 (Node l p r1) = Inr (0, t')" "post_del ?t t'"
      using rebalance_right[OF Node.prems P refl] by blast
    then have "delete 0 ?t nm = Inr (0, t', fr) \<and> post_del ?t t'"
      using gt D by simp
    then show ?thesis by blast
  next
    case eq
    show ?thesis
    proof (cases l)
      case Sentinel
      have lp: "level p = 1" using lv Sentinel by simp
      have "lvl 0 r = lvl 0 ?t \<or> lvl 0 r + 1 = lvl 0 ?t" using rv by auto
      moreover have "lvl 0 r = lvl 0 ?t \<and> sngl ?t \<longrightarrow> sngl r" by auto
      ultimately have "post_del ?t r" using ir by - (rule post_delI; blast)
      moreover have "delete 0 ?t nm = Inr (0, r, Some p)"
        using eq Sentinel rebalance_invar[OF ir] by simp
      ultimately show ?thesis by blast
    next
      case L: (Node ll lp lr)
      have "1 \<le> lvl 0 l" using invar_level_pos[of ll lp lr] il L by simp
      then have p2: "2 \<le> level p" using lv by linarith
      have r1: "1 \<le> lvl 0 r" using rv p2 by linarith
      then obtain rl rp rr where R: "r = Node rl rp rr" using invar_Node_ex[OF ir] by blast
      let ?succ = "leftmost rl rp"
      let ?p1 = "p\<lparr>name := name ?succ, atts := atts ?succ, value := value ?succ\<rparr>"
      obtain r1 fr where D: "delete 0 r (name ?succ) = Inr (0, r1, fr)" and P: "post_del r r1"
        using Node.IH(2)[OF ir] by blast
      have "level ?p1 = level p" by simp
      then obtain t' where "rebalance 0 (Node l ?p1 r1) = Inr (0, t')" "post_del ?t t'"
        using rebalance_right[OF Node.prems P] by blast
      then have "delete 0 ?t nm = Inr (0, t', fr) \<and> post_del ?t t'"
        using eq D L R by (simp add: Let_def del: rebalance.simps)
      then show ?thesis by blast
    qed
  qed
qed

subsection \<open>What insert and delete do to the names and the records\<close>

lemma strcmp_lt [simp]: "strcmp s t < 0 \<longleftrightarrow> s < t"
  and strcmp_gt [simp]: "strcmp s t > 0 \<longleftrightarrow> t < s"
  and strcmp_eq [simp]: "strcmp s t = 0 \<longleftrightarrow> s = t"
  by (auto simp: strcmp_def)

lemma names_recs: "tree_names t = name ` recs t"
  by (induction t) (auto simp: unlevel_def)

lemma lookup_names: "lookup t nm = Some p \<Longrightarrow> name p = nm \<and> nm \<in> tree_names t"
  by (induction t) (auto simp: Let_def split: if_splits)


lemma lookup_recs: "bst t \<Longrightarrow> lookup t nm = Some p \<Longrightarrow> unlevel p \<in> recs t"
  by (induction t) (auto simp: Let_def split: if_splits)

lemma recs_lookup:
  "bst t \<Longrightarrow> q \<in> recs t \<Longrightarrow> \<exists>p. lookup t (name q) = Some p \<and> unlevel p = q"
proof (induction t)
  case Sentinel
  then show ?case by simp
next
  case (Node l p r)
  have nl: "\<And>x. x \<in> recs l \<Longrightarrow> name x < name p"
    using Node.prems(1) by (auto simp: names_recs)
  have nr: "\<And>x. x \<in> recs r \<Longrightarrow> name p < name x"
    using Node.prems(1) by (auto simp: names_recs)
  from Node.prems(2) consider "q \<in> recs l" | "q = unlevel p" | "q \<in> recs r" by auto
  then show ?case
  proof cases
    case 1
    then show ?thesis using Node.IH(1) Node.prems(1) nl[OF 1] by (auto simp: Let_def)
  next
    case 2
    then show ?thesis by (simp add: unlevel_def)
  next
    case 3
    then show ?thesis using Node.IH(2) Node.prems(1) nr[OF 3] by (auto simp: Let_def)
  qed
qed





lemma view_Sentinel [simp]: "view Sentinel nm = None"
  by (simp add: view_def)

lemma view_Node:
  "view (Node l p r) nm =
     (if nm = name p then Some (unlevel p) else if nm < name p then view l nm else view r nm)"
  by (auto simp: view_def Let_def)


lemma view_name: "view t nm = Some q \<Longrightarrow> name q = nm"
  by (auto simp: view_def unlevel_def dest: lookup_names)

lemma view_level_update [simp]: "unlevel (p\<lparr>level := v\<rparr>) = unlevel p"
  by (simp add: unlevel_def)

lemma name_unlevel [simp]: "name (unlevel p) = name p"
  by (simp add: unlevel_def)

lemma view_left: "bst (Node l p r) \<Longrightarrow> nm \<in> tree_names l \<Longrightarrow> nm < name p"
  by simp




lemma keeps_refl [simp]: "keeps t t"
  by (simp add: keeps_def)



lemma keeps_left: "keeps l l1 \<Longrightarrow> keeps (Node l p r) (Node l1 p r)"
  by (auto simp: keeps_def view_Node fun_eq_iff)










lemma lookup_view_None: "lookup t nm = None \<longleftrightarrow> view t nm = None"
  by (simp add: view_def)













subsection \<open>Runs of insert and delete keep the invariants\<close>





text \<open>
  C9. On every tree that satisfies the invariants, with the sentinel at level 0, \<open>insert\<close>
  and \<open>delete\<close> return with the sentinel at level 0 and without a store that changes one
  of its two links; this includes the last block of \<open>delete\<close>, where \<open>skew\<close> runs on the
  sentinel when the right child or its right child is the sentinel (it stores into the
  sentinel's links the value they hold) and \<open>split\<close> never does. \<open>lookup\<close> only reads.
\<close>

theorem sentinel_unchanged:
  assumes "aa_tree t"
  shows "(\<exists>t' res. insert_node 0 a t nm = Inr (0, t', res)) \<and>
         (\<exists>t' fr. delete 0 t nm = Inr (0, t', fr)) \<and>
         skew 0 Sentinel = Inr Sentinel"
proof -
  have i: "invar t" using aa_tree_invar[OF assms] .
  have "\<exists>t' res. insert_node 0 a t nm = Inr (0, t', res)"
    using insert_node_ok[OF i, of a nm] by blast
  moreover have "\<exists>t' fr. delete 0 t nm = Inr (0, t', fr)"
    using delete_ok[OF i, of nm] by blast
  ultimately show ?thesis by simp
qed

theorem sentinel_unchanged_witness:
  "aa_tree (Node Sentinel (newproperty 0 ''a'') (Node Sentinel (newproperty 1 ''b'') Sentinel)) \<and>
   (\<exists>t' fr. delete 0 (Node Sentinel (newproperty 0 ''a'')
        (Node Sentinel (newproperty 1 ''b'') Sentinel)) ''b'' = Inr (0, t', fr))"
  using sentinel_unchanged
    [of "Node Sentinel (newproperty 0 ''a'') (Node Sentinel (newproperty 1 ''b'') Sentinel)" 0 "''b''"]
  by (simp add: newproperty_def)

subsection \<open>Lookup after set and delete, repeated set, delete of an absent name\<close>

lemma delete_absent:
  "invar t \<Longrightarrow> lookup t nm = None \<Longrightarrow> delete 0 t nm = Inr (0, t, None)"
proof (induction t)
  case Sentinel
  then show ?case by simp
next
  case (Node l p r)
  have il: "invar l" and ir: "invar r" using Node.prems(1) invar_left invar_right by blast+
  have R: "rebalance 0 (Node l p r) = Inr (0, Node l p r)" using rebalance_invar[OF Node.prems(1)] .
  consider (lt) "nm < name p" | (gt) "name p < nm" | (eq) "nm = name p" by fastforce
  then show ?case
  proof cases
    case lt
    then have ne: "nm \<noteq> name p" by auto
    then have "lookup l nm = None" using lt Node.prems(2) by (simp add: Let_def)
    then have "delete 0 l nm = Inr (0, l, None)" using Node.IH(1)[OF il] by simp
    then show ?thesis using lt R by (simp add: Let_def del: rebalance.simps)
  next
    case gt
    then have ng: "\<not> nm < name p" "nm \<noteq> name p" by auto
    then have "lookup r nm = None" using Node.prems(2) by (simp add: Let_def)
    then have "delete 0 r nm = Inr (0, r, None)" using Node.IH(2)[OF ir] by simp
    then show ?thesis using ng gt R by (simp add: Let_def del: rebalance.simps)
  next
    case eq
    then show ?thesis using Node.prems(2) by (simp add: Let_def)
  qed
qed


lemma lookup_absent: "nm \<notin> tree_names t \<Longrightarrow> lookup t nm = None"
  using lookup_names by (cases "lookup t nm") auto

lemma lvl_update_prop [simp]:
  "(\<And>q. level (f q) = level q) \<Longrightarrow> lvl sl (update_prop t a f) = lvl sl t"
  by (cases t) auto

lemma right_of_update_prop [simp]: "right_of (update_prop t a f) = update_prop (right_of t) a f"
  by (cases t) auto

lemma update_prop_Sentinel_iff [simp]: "update_prop t a f = Sentinel \<longleftrightarrow> t = Sentinel"
  by (cases t) auto








lemmas run_defs = jsV_setproperty_def jsV_delproperty_def freenode_def write_prop_def
  new_plain_def mem0_def jsV_newobject_def undef_def newproperty_def Let_def

text \<open>
  C10. Deleting a name that is not in the tree of an object whose tree satisfies the
  invariants changes nothing: \<open>delete\<close> returns the very tree it was given (every level,
  link, name, value and attribute as before, so no rotation fired), releases no record,
  and \<open>jsV_delproperty\<close> returns the memory it was given, the list links included.
\<close>

theorem jsV_delproperty_absent:
  assumes "objs m oa = Some obj" and "sentinel_level m = 0"
    and "aa_tree (properties obj)" and "nm \<notin> tree_names (properties obj)"
  shows "delete 0 (properties obj) nm = Inr (0, properties obj, None) \<and>
         jsV_delproperty m oa nm = Inr m"
proof -
  have d: "delete 0 (properties obj) nm = Inr (0, properties obj, None)"
    using delete_absent[OF aa_tree_invar[OF assms(3)] lookup_absent[OF assms(4)]] .
  have "obj\<lparr>properties := properties obj\<rparr> = obj" by simp
  moreover have "(objs m)(oa \<mapsto> obj) = objs m" using assms(1) by (simp add: fun_upd_idem)
  moreover have "m\<lparr>sentinel_level := 0, objs := objs m\<rparr> = m" using assms(2) by simp
  ultimately have "jsV_delproperty m oa nm = Inr m"
    using assms(1,2) d by (simp add: jsV_delproperty_def del: delete.simps)
  then show ?thesis using d by simp
qed

theorem jsV_delproperty_absent_witness:
  "objs (projr (obj_run 0 new_plain [Set ''a'' undef 0, Set ''b'' undef 0])) 0 \<noteq> None \<and>
   ''c'' \<notin> tree_names (properties (the (objs (projr (obj_run 0 new_plain
        [Set ''a'' undef 0, Set ''b'' undef 0])) 0))) \<and>
   jsV_delproperty (projr (obj_run 0 new_plain [Set ''a'' undef 0, Set ''b'' undef 0])) 0 ''c''
     = Inr (projr (obj_run 0 new_plain [Set ''a'' undef 0, Set ''b'' undef 0]))"
  using jsV_delproperty_absent
    [of "projr (obj_run 0 new_plain [Set ''a'' undef 0, Set ''b'' undef 0])" 0
        "the (objs (projr (obj_run 0 new_plain [Set ''a'' undef 0, Set ''b'' undef 0])) 0)" "''c''"]
  by (simp add: run_defs del: delete.simps)

lemma unlevel_fields [simp]:
  "addr (unlevel p) = addr p" "atts (unlevel p) = atts p" "value (unlevel p) = value p"
  "prevp (unlevel p) = prevp p" "next (unlevel p) = next p"
  by (simp_all add: unlevel_def)




























subsection \<open>Prototype chains and the ordered list\<close>

lemma jsV_getproperty_chain:
  "chain_from m (Some oa) ch \<Longrightarrow> jsV_getproperty m oa nm = Some (Inr (resolve ch nm))"
proof (induction ch arbitrary: oa)
  case Nil
  then show ?case by simp
next
  case (Cons x rest)
  have o: "objs m oa = Some (snd x)" and a: "fst x = oa"
    and c: "chain_from m (prototype (snd x)) rest" using Cons.prems by auto
  show ?case
  proof (cases "lookup (properties (snd x)) nm")
    case (Some ref)
    then show ?thesis using o by (subst jsV_getproperty.simps) simp
  next
    case None
    show ?thesis
    proof (cases "prototype (snd x)")
      case N: None
      then have "rest = []" using c by (cases rest) auto
      then show ?thesis using o None N by (subst jsV_getproperty.simps) simp
    next
      case (Some pa)
      then have "jsV_getproperty m pa nm = Some (Inr (resolve rest nm))"
        using Cons.IH c by simp
      then show ?thesis using o None Some by (subst jsV_getproperty.simps) simp
    qed
  qed
qed

lemma chain_from_unique: "chain_from m h c1 \<Longrightarrow> chain_from m h c2 \<Longrightarrow> c1 = c2"
proof (induction c1 arbitrary: h c2)
  case Nil
  then show ?case by (cases c2) auto
next
  case (Cons x rest)
  then obtain y rest2 where c2: "c2 = y # rest2" by (cases c2) auto
  have "fst x = fst y" "snd x = snd y" using Cons.prems c2 by auto
  then have "x = y" by (simp add: prod_eq_iff)
  moreover have "rest = rest2" using Cons.IH[of "prototype (snd x)" rest2] Cons.prems c2 \<open>snd x = snd y\<close> by auto
  ultimately show ?case using c2 by simp
qed

lemma chain_from_append: "chain_from m h (pre @ x # post) \<Longrightarrow> chain_from m (Some (fst x)) (x # post)"
  by (induction pre arbitrary: h) auto

lemma chain_from_distinct: "chain_from m h ch \<Longrightarrow> distinct (map fst ch)"
proof (induction ch arbitrary: h)
  case Nil
  then show ?case by simp
next
  case (Cons x rest)
  have d: "distinct (map fst rest)" using Cons.IH Cons.prems by auto
  have "fst x \<notin> fst ` set rest"
  proof
    assume "fst x \<in> fst ` set rest"
    then obtain y where y: "y \<in> set rest" "fst y = fst x" by auto
    then obtain pre post where sp: "rest = pre @ y # post" by (meson split_list)
    have "chain_from m (prototype (snd x)) (pre @ y # post)" using Cons.prems sp by simp
    then have "chain_from m (Some (fst x)) (y # post)" using chain_from_append y(2) by metis
    moreover have "chain_from m (Some (fst x)) (x # rest)" using Cons.prems by simp
    ultimately have "y # post = x # rest" using chain_from_unique by blast
    then show False using sp by auto
  qed
  then show ?case using d by simp
qed

subsection \<open>Evaluating runs\<close>

lemma drain_eval:
  "drain m io acc =
     (case jsV_nextiterator m io of
        None \<Rightarrow> None
      | Some r \<Rightarrow>
          (case r of
             Inl e \<Rightarrow> Some (Inl e)
           | Inr x \<Rightarrow>
               (case snd x of
                  None \<Rightarrow> Some (Inr (fst x, acc))
                | Some nm \<Rightarrow> drain (fst x) io (acc @ [nm]))))"
  by (subst drain.simps) (simp split: option.splits sum.splits prod.splits)

lemma enumerate_names_eval:
  "enumerate_names m oa own =
     (case jsV_newiterator m oa own of
        None \<Rightarrow> None
      | Some r \<Rightarrow>
          (case r of
             Inl e \<Rightarrow> Some (Inl e)
           | Inr x \<Rightarrow>
               (case drain (fst x) (snd x) [] of
                  None \<Rightarrow> None
                | Some r2 \<Rightarrow>
                    (case r2 of Inl e \<Rightarrow> Some (Inl e) | Inr y \<Rightarrow> Some (Inr (snd y))))))"
  by (simp add: enumerate_names_def split: option.splits sum.splits prod.splits)

lemma jsV_newiterator_eval:
  "jsV_newiterator m oa own =
     (case itwalk (fst (jsV_newobject m JS_CITERATOR None)) oa own of
        None \<Rightarrow> None
      | Some r \<Rightarrow>
          (case r of
             Inl e \<Rightarrow> Some (Inl e)
           | Inr nms \<Rightarrow>
               (case objs (fst (jsV_newobject m JS_CITERATOR None))
                       (snd (jsV_newobject m JS_CITERATOR None)) of
                  None \<Rightarrow> Some (Inl UseAfterFree)
                | Some it \<Rightarrow>
                    Some (Inr ((fst (jsV_newobject m JS_CITERATOR None))\<lparr>objs :=
                       (objs (fst (jsV_newobject m JS_CITERATOR None)))
                         (snd (jsV_newobject m JS_CITERATOR None) \<mapsto>
                            it\<lparr>target := Some oa, iter_head := nms\<rparr>)\<rparr>,
                      snd (jsV_newobject m JS_CITERATOR None))))))"
  by (simp add: jsV_newiterator_def split: option.splits sum.splits prod.splits)

lemmas run_evals = run_defs enumerate_names_eval jsV_newiterator_eval drain_eval itwalk_def
  itwalk_objs.simps itwalk_props.simps itshadow.simps jsV_nextiterator_def jsV_getproperty.simps
  dontenum_def JS_DONTENUM_def

subsection \<open>What \<open>itwalk\<close> appends\<close>

lemma itshadow_chain:
  "chain_from m (Some topa) (pre @ x # post) \<Longrightarrow>
   itshadow m (Some topa) (fst x) nm = Some (Inr (shadowed pre nm))"
proof (induction pre arbitrary: topa)
  case Nil
  then show ?case by (subst itshadow.simps) (simp add: shadowed_def)
next
  case (Cons y pre)
  have d: "distinct (map fst ((y # pre) @ x # post))" using chain_from_distinct[OF Cons.prems] .
  then have ne: "fst y \<noteq> fst x" by auto
  have t: "topa = fst y" and o: "objs m (fst y) = Some (snd y)"
    and c: "chain_from m (prototype (snd y)) (pre @ x # post)" using Cons.prems by auto
  obtain pa where pa: "prototype (snd y) = Some pa" using c by (cases pre) auto
  have IH: "itshadow m (Some pa) (fst x) nm = Some (Inr (shadowed pre nm))"
    using Cons.IH c pa by simp
  show ?case
  proof (cases "exposes (snd y) nm")
    case True
    then show ?thesis using t o ne
      by (subst itshadow.simps) (auto simp: shadowed_def exposes_def split: option.splits)
  next
    case False
    then show ?thesis using t o ne IH pa
      by (subst itshadow.simps) (auto simp: shadowed_def exposes_def split: option.splits)
  qed
qed

lemma itwalk_props_list:
  assumes ch: "chain_from m (Some topa) (pre @ x # post)"
  shows "list_from t h ps \<Longrightarrow>
         itwalk_props m topa (fst x) t h acc = Some (Inr (acc @ level_names pre ps))"
proof (induction ps arbitrary: h acc)
  case Nil
  then show ?case by (subst itwalk_props.simps) (simp add: level_names_def)
next
  case (Cons p ps)
  have h: "h = Some (addr p)" and l: "list_from t (next p) ps" using Cons.prems by auto
  obtain p' where f: "find_prop t (addr p) = Some p'" and u: "unlevel p' = p"
    using Cons.prems by auto
  have e: "name p' = name p" "atts p' = atts p" "next p' = next p"
    using u by (auto simp: unlevel_def)
  note sh = itshadow_chain[OF ch, of "name p"]
  show ?case
  proof (cases "dontenum (atts p)")
    case True
    then show ?thesis using h f e Cons.IH[OF l, of acc]
      by (subst itwalk_props.simps) (simp add: level_names_def)
  next
    case False
    show ?thesis
    proof (cases "shadowed pre (name p)")
      case True
      then show ?thesis using False h f e sh Cons.IH[OF l, of acc]
        by (subst itwalk_props.simps) (simp add: level_names_def)
    next
      case ns: False
      then show ?thesis using False h f e sh Cons.IH[OF l, of "acc @ [name p]"]
        by (subst itwalk_props.simps) (simp add: level_names_def)
    qed
  qed
qed

lemma itwalk_objs_own:
  assumes ch: "chain_from m (Some topa) (pre @ x # post)"
    and l: "list_from (properties (snd x)) (head (snd x)) ps"
  shows "itwalk_objs m topa (Some (fst x)) True acc = Some (Inr (acc @ level_names pre ps))"
proof -
  have o: "objs m (fst x) = Some (snd x)" using chain_from_append[OF ch] by simp
  show ?thesis using o itwalk_props_list[OF ch l, of acc]
    by (subst itwalk_objs.simps) simp
qed

lemma itwalk_objs_chain:
  "chain_from m (Some topa) (pre @ rest) \<Longrightarrow>
   list_all2 (\<lambda>x ps. list_from (properties (snd x)) (head (snd x)) ps) rest pss \<Longrightarrow>
   itwalk_objs m topa (case rest of [] \<Rightarrow> None | x # _ \<Rightarrow> Some (fst x)) False acc =
     Some (Inr (acc @ walk_names pre rest pss))"
proof (induction rest arbitrary: pre pss acc)
  case Nil
  then show ?case by (subst itwalk_objs.simps) simp
next
  case (Cons x rest)
  obtain ps pss' where pss: "pss = ps # pss'" and l: "list_from (properties (snd x)) (head (snd x)) ps"
    and ls: "list_all2 (\<lambda>x ps. list_from (properties (snd x)) (head (snd x)) ps) rest pss'"
    using Cons.prems(2) by (cases pss) auto
  have o: "objs m (fst x) = Some (snd x)" using chain_from_append[OF Cons.prems(1)] by simp
  have c: "chain_from m (prototype (snd x)) rest" using chain_from_append[OF Cons.prems(1)] by simp
  have pr: "prototype (snd x) = (case rest of [] \<Rightarrow> None | y # _ \<Rightarrow> Some (fst y))"
    using c by (cases rest) auto
  have c2: "chain_from m (Some topa) ((pre @ [x]) @ rest)" using Cons.prems(1) by simp
  have IH: "itwalk_objs m topa (prototype (snd x)) False (acc @ level_names pre ps) =
      Some (Inr ((acc @ level_names pre ps) @ walk_names (pre @ [x]) rest pss'))"
    using Cons.IH[OF c2 ls] pr by simp
  show ?case using o itwalk_props_list[OF Cons.prems(1) l, of acc] IH pss
    by (subst itwalk_objs.simps) simp
qed

lemma itwalk_own:
  assumes "chain_from m (Some oa) (x # post)" "list_from (properties (snd x)) (head (snd x)) ps"
  shows "itwalk m oa True = Some (Inr (level_names [] ps))"
proof -
  have "fst x = oa" using assms(1) by simp
  then show ?thesis using itwalk_objs_own[of m oa "[]" x post ps "[]"] assms by (simp add: itwalk_def)
qed

lemma itwalk_full:
  assumes "chain_from m (Some oa) ch"
    "list_all2 (\<lambda>x ps. list_from (properties (snd x)) (head (snd x)) ps) ch pss"
  shows "itwalk m oa False = Some (Inr (walk_names [] ch pss))"
proof -
  have "(case ch of [] \<Rightarrow> None | x # _ \<Rightarrow> Some (fst x)) = Some oa"
    using assms(1) by (cases ch) auto
  then show ?thesis using itwalk_objs_chain[of m oa "[]" ch pss "[]"] assms by (simp add: itwalk_def)
qed

subsection \<open>What \<open>jsV_nextiterator\<close> returns\<close>

lemma next_name_chain:
  assumes "chain_from m (Some tg) ch"
  shows "next_name m tg q =
     Some (Inr (case pending ch q of [] \<Rightarrow> (None, []) | n # r \<Rightarrow> (Some n, r)))"
proof (induction q)
  case Nil
  then show ?case by (simp add: pending_def)
next
  case (Cons n q)
  note g = jsV_getproperty_chain[OF assms, of n]
  show ?case
  proof (cases "resolve ch n")
    case None
    then show ?thesis using g Cons by (simp add: pending_def)
  next
    case (Some ref)
    then show ?thesis using g by (simp add: pending_def)
  qed
qed

lemma chain_from_cong:
  "\<forall>a \<in> fst ` set ch. objs m' a = objs m a \<Longrightarrow> chain_from m' h ch = chain_from m h ch"
  by (induction ch arbitrary: h) auto

lemma chain_from_upd:
  "io \<notin> fst ` set ch \<Longrightarrow> chain_from (m\<lparr>objs := (objs m)(io \<mapsto> x)\<rparr>) h ch = chain_from m h ch"
  by (rule chain_from_cong) auto

lemma jsV_nextiterator_chain:
  assumes "objs m io = Some it" "otype it = JS_CITERATOR" "target it = Some tg"
    "chain_from m (Some tg) ch"
  shows "jsV_nextiterator m io =
     Some (Inr (m\<lparr>objs := (objs m)(io \<mapsto> it\<lparr>iter_head := tl (pending ch (iter_head it))\<rparr>)\<rparr>,
                case pending ch (iter_head it) of [] \<Rightarrow> None | n # r \<Rightarrow> Some n))"
proof (cases "iter_head it")
  case Nil
  then have "it\<lparr>iter_head := []\<rparr> = it" by simp
  then have "m\<lparr>objs := (objs m)(io \<mapsto> it\<lparr>iter_head := []\<rparr>)\<rparr> = m"
    using assms(1) by (simp add: fun_upd_idem)
  then show ?thesis using assms Nil by (simp add: jsV_nextiterator_def pending_def)
next
  case (Cons n q)
  show ?thesis using assms(1,2,3) Cons next_name_chain[OF assms(4), of "n # q"]
    by (simp add: jsV_nextiterator_def split: list.splits)
qed

lemma filter_pending:
  "filter (\<lambda>n. resolve ch n \<noteq> None) q = filter (\<lambda>n. resolve ch n \<noteq> None) (pending ch q)"
  unfolding pending_def by (induction q) auto

lemma length_tl_pending: "q \<noteq> [] \<Longrightarrow> length (tl (pending ch q)) < length q"
proof -
  assume "q \<noteq> []"
  then have "0 < length q" by simp
  moreover have "length (pending ch q) \<le> length q" unfolding pending_def by (rule length_dropWhile_le)
  moreover have "length (tl (pending ch q)) = length (pending ch q) - 1" by simp
  ultimately show ?thesis by linarith
qed

lemma pending_hd: "pending ch q = n # r \<Longrightarrow> resolve ch n \<noteq> None"
  unfolding pending_def using hd_dropWhile[of "\<lambda>n. resolve ch n = None" q] by auto

lemma drain_chain:
  "objs m io = Some it \<Longrightarrow> otype it = JS_CITERATOR \<Longrightarrow> target it = Some tg \<Longrightarrow>
   chain_from m (Some tg) ch \<Longrightarrow> io \<notin> fst ` set ch \<Longrightarrow>
     drain m io acc =
       Some (Inr (m\<lparr>objs := (objs m)(io \<mapsto> it\<lparr>iter_head := []\<rparr>)\<rparr>,
                  acc @ filter (\<lambda>n. resolve ch n \<noteq> None) (iter_head it)))"
proof (induction "length (iter_head it)" arbitrary: m it acc rule: less_induct)
  case less
  note nx = jsV_nextiterator_chain[OF less.prems(1,2,3,4)]
  let ?it1 = "it\<lparr>iter_head := tl (pending ch (iter_head it))\<rparr>"
  let ?m1 = "m\<lparr>objs := (objs m)(io \<mapsto> ?it1)\<rparr>"
  show ?case
  proof (cases "pending ch (iter_head it)")
    case Nil
    then have "filter (\<lambda>n. resolve ch n \<noteq> None) (iter_head it) = []"
      using filter_pending[of ch "iter_head it"] by simp
    then show ?thesis using nx Nil by (subst drain.simps) simp
  next
    case (Cons n r)
    then have ne: "iter_head it \<noteq> []" by (auto simp: pending_def)
    have lt: "length (iter_head ?it1) < length (iter_head it)"
      using length_tl_pending[OF ne, of ch] by simp
    have o1: "objs ?m1 io = Some ?it1" by simp
    have c1: "chain_from ?m1 (Some tg) ch"
      using chain_from_upd[OF less.prems(5)] less.prems(4) by simp
    have IH: "drain ?m1 io (acc @ [n]) =
       Some (Inr (?m1\<lparr>objs := (objs ?m1)(io \<mapsto> ?it1\<lparr>iter_head := []\<rparr>)\<rparr>,
                  (acc @ [n]) @ filter (\<lambda>n. resolve ch n \<noteq> None) (iter_head ?it1)))"
      using less.hyps[OF lt o1 _ _ c1 less.prems(5)] less.prems(2,3) by simp
    have f: "filter (\<lambda>n. resolve ch n \<noteq> None) (iter_head it) =
        n # filter (\<lambda>n. resolve ch n \<noteq> None) r"
      using filter_pending[of ch "iter_head it"] Cons pending_hd[OF Cons] by simp
    show ?thesis using nx Cons IH f by (subst drain.simps) simp
  qed
qed

subsection \<open>Names on the list, and the enumeration of a chain\<close>

lemma find_prop_lookup: "bst t \<Longrightarrow> find_prop t a = Some p \<Longrightarrow> lookup t (name p) = Some p"
proof (induction t)
  case Sentinel
  then show ?case by simp
next
  case (Node l p0 r)
  show ?case
  proof (cases "addr p0 = a")
    case True
    then show ?thesis using Node.prems by simp
  next
    case False
    show ?thesis
    proof (cases "find_prop l a")
      case (Some q)
      then have q: "q = p" using Node.prems False by simp
      have "lookup l (name p) = Some p" using Node.IH(1) Node.prems(1) Some q by simp
      moreover have "name p < name p0" using lookup_names[OF calculation] Node.prems(1) by simp
      ultimately show ?thesis by simp
    next
      case None
      then have f: "find_prop r a = Some p" using Node.prems False by simp
      have lk: "lookup r (name p) = Some p" using Node.IH(2) Node.prems(1) f by simp
      have gt: "name p0 < name p" using lookup_names[OF lk] Node.prems(1) by simp
      then have "name p \<noteq> name p0" "\<not> name p < name p0" by (auto dest: less_asym)
      then show ?thesis using lk gt by simp
    qed
  qed
qed

lemma list_from_unique: "list_from t h ps \<Longrightarrow> list_from t h qs \<Longrightarrow> ps = qs"
proof (induction ps arbitrary: h qs)
  case Nil
  then show ?case by (cases qs) auto
next
  case (Cons p ps)
  then obtain q qs' where qs: "qs = q # qs'" by (cases qs) auto
  have "p = q" using Cons.prems qs by auto
  then show ?case using Cons.IH[of "next p" qs'] Cons.prems qs by auto
qed

lemma list_from_append: "list_from t h (pre @ p # post) \<Longrightarrow> list_from t (Some (addr p)) (p # post)"
  by (induction pre arbitrary: h) auto

lemma list_from_distinct: "list_from t h ps \<Longrightarrow> distinct (map addr ps)"
proof (induction ps arbitrary: h)
  case Nil
  then show ?case by simp
next
  case (Cons p ps)
  have d: "distinct (map addr ps)" using Cons.IH Cons.prems by auto
  have "addr p \<notin> addr ` set ps"
  proof
    assume "addr p \<in> addr ` set ps"
    then obtain q where q: "q \<in> set ps" "addr q = addr p" by auto
    then obtain pre post where sp: "ps = pre @ q # post" by (meson split_list)
    have "list_from t (next p) (pre @ q # post)" using Cons.prems sp by simp
    then have "list_from t (Some (addr p)) (q # post)" using list_from_append q(2) by metis
    moreover have "list_from t (Some (addr p)) (p # ps)" using Cons.prems by simp
    ultimately have "q # post = p # ps" using list_from_unique by blast
    then show False using sp by auto
  qed
  then show ?case using d by simp
qed

lemma list_from_lookup:
  assumes "bst t" "list_from t h ps" "p \<in> set ps"
  shows "\<exists>p'. lookup t (name p) = Some p' \<and> unlevel p' = p"
proof -
  obtain pre post where "ps = pre @ p # post" using assms(3) by (meson split_list)
  then have "list_from t (Some (addr p)) (p # post)" using assms(2) list_from_append by blast
  then obtain p' where f: "find_prop t (addr p) = Some p'" and u: "unlevel p' = p" by auto
  have "name p' = name p" using u by (auto simp: unlevel_def)
  then show ?thesis using find_prop_lookup[OF assms(1) f] u by auto
qed

lemma list_from_names_distinct:
  assumes "bst t" "list_from t h ps"
  shows "distinct (map name ps)"
proof -
  have "inj_on name (set ps)"
  proof (rule inj_onI)
    fix p q assume a: "p \<in> set ps" "q \<in> set ps" "name p = name q"
    obtain p' where p': "lookup t (name p) = Some p'" "unlevel p' = p"
      using list_from_lookup[OF assms a(1)] by blast
    obtain q' where q': "lookup t (name q) = Some q'" "unlevel q' = q"
      using list_from_lookup[OF assms a(2)] by blast
    show "p = q" using p' q' a(3) by simp
  qed
  moreover have "distinct ps" using list_from_distinct[OF assms(2)] by (simp add: distinct_map)
  ultimately show ?thesis by (simp add: distinct_map)
qed

lemma level_names_distinct:
  "listed ob ps \<Longrightarrow> distinct (level_names pre ps)"
  unfolding level_names_def listed_def
  using list_from_names_distinct distinct_map_filter by blast

lemma level_names_exposes:
  assumes "listed ob ps" "n \<in> set (level_names pre ps)"
  shows "exposes ob n \<and> \<not> shadowed pre n"
proof -
  obtain p where p: "p \<in> set ps" "name p = n" "\<not> dontenum (atts p)" "\<not> shadowed pre n"
    using assms(2) by (auto simp: level_names_def)
  obtain p' where "lookup (properties ob) n = Some p'" "unlevel p' = p"
    using list_from_lookup[of "properties ob" "head ob" ps p] assms(1) p(1,2) by (auto simp: listed_def)
  then show ?thesis using p by (auto simp: exposes_def unlevel_def)
qed

lemma walk_names_shadow:
  "list_all2 (\<lambda>x ps. listed (snd x) ps) rest pss \<Longrightarrow> n \<in> set (walk_names pre rest pss) \<Longrightarrow>
   \<not> shadowed pre n \<and> (\<exists>x \<in> set rest. exposes (snd x) n)"
proof (induction pre rest pss rule: walk_names.induct)
  case (3 pre x rest ps pss)
  have l: "listed (snd x) ps" and ls: "list_all2 (\<lambda>x ps. listed (snd x) ps) rest pss"
    using "3.prems"(1) by auto
  from "3.prems"(2) consider "n \<in> set (level_names pre ps)" | "n \<in> set (walk_names (pre @ [x]) rest pss)"
    by auto
  then show ?case
  proof cases
    case 1
    then show ?thesis using level_names_exposes[OF l] by auto
  next
    case 2
    then show ?thesis using "3.IH"[OF ls] by (auto simp: shadowed_def)
  qed
qed auto

lemma walk_names_distinct:
  "list_all2 (\<lambda>x ps. listed (snd x) ps) rest pss \<Longrightarrow> distinct (walk_names pre rest pss)"
proof (induction pre rest pss rule: walk_names.induct)
  case (3 pre x rest ps pss)
  have l: "listed (snd x) ps" and ls: "list_all2 (\<lambda>x ps. listed (snd x) ps) rest pss"
    using "3.prems"(1) by auto
  have "set (level_names pre ps) \<inter> set (walk_names (pre @ [x]) rest pss) = {}"
  proof (rule ccontr)
    assume "\<not> ?thesis"
    then obtain n where n: "n \<in> set (level_names pre ps)" "n \<in> set (walk_names (pre @ [x]) rest pss)"
      by auto
    have "exposes (snd x) n" using level_names_exposes[OF l n(1)] by simp
    moreover have "\<not> shadowed (pre @ [x]) n" using walk_names_shadow[OF ls n(2)] by simp
    ultimately show False by (simp add: shadowed_def)
  qed
  then show ?case using level_names_distinct[OF l] "3.IH"[OF ls] by simp
qed auto

lemma resolve_None_iff: "resolve ch n = None \<longleftrightarrow> (\<forall>x \<in> set ch. lookup (properties (snd x)) n = None)"
  by (induction ch) (auto split: option.splits)

lemma walk_names_resolve:
  assumes "list_all2 (\<lambda>x ps. listed (snd x) ps) rest pss" "n \<in> set (walk_names pre rest pss)"
  shows "resolve (pre @ rest) n \<noteq> None"
proof -
  obtain x where "x \<in> set rest" "exposes (snd x) n" using walk_names_shadow[OF assms] by blast
  then show ?thesis by (auto simp: resolve_None_iff exposes_def split: option.splits)
qed

lemma jsV_newiterator_names:
  assumes w: "itwalk (fst (jsV_newobject m JS_CITERATOR None)) oa own = Some (Inr nms)"
  shows "\<exists>m' it. jsV_newiterator m oa own = Some (Inr (m', brk m)) \<and> objs m' (brk m) = Some it \<and>
     (\<forall>a. a \<noteq> brk m \<longrightarrow> objs m' a = objs m a) \<and>
     otype it = JS_CITERATOR \<and> target it = Some oa \<and> iter_head it = nms"
  using w by (simp add: jsV_newiterator_eval jsV_newobject_def Let_def)

lemma chain_from_newobject:
  assumes "chain_from m h ch" "brk m \<notin> fst ` set ch"
  shows "chain_from (fst (jsV_newobject m ty proto)) h ch"
proof -
  have "\<forall>a \<in> fst ` set ch. a \<noteq> brk m" using assms(2) by blast
  then have "\<forall>a \<in> fst ` set ch. objs (fst (jsV_newobject m ty proto)) a = objs m a"
    by (simp add: jsV_newobject_def Let_def)
  then show ?thesis using chain_from_cong assms(1) by blast
qed

lemma enumerate_names_walk:
  assumes ch: "chain_from m (Some oa) ch" and fr: "brk m \<notin> fst ` set ch"
    and w: "itwalk (fst (jsV_newobject m JS_CITERATOR None)) oa own = Some (Inr nms)"
  shows "enumerate_names m oa own = Some (Inr (filter (\<lambda>n. resolve ch n \<noteq> None) nms))"
proof -
  obtain m' it where n: "jsV_newiterator m oa own = Some (Inr (m', brk m))"
    and o: "objs m' (brk m) = Some it" and same: "\<forall>a. a \<noteq> brk m \<longrightarrow> objs m' a = objs m a"
    and it: "otype it = JS_CITERATOR" "target it = Some oa" "iter_head it = nms"
    using jsV_newiterator_names[OF w] by blast
  have "\<forall>a \<in> fst ` set ch. a \<noteq> brk m" using fr by blast
  then have "\<forall>a \<in> fst ` set ch. objs m' a = objs m a" using same by simp
  then have c: "chain_from m' (Some oa) ch" using chain_from_cong ch by blast
  show ?thesis using n drain_chain[OF o it(1,2) c fr, of "[]"] it(3)
    by (simp add: enumerate_names_def)
qed

lemma list_all2_listed:
  "list_all2 (\<lambda>x ps. listed (snd x) ps) ch pss \<Longrightarrow>
   list_all2 (\<lambda>x ps. list_from (properties (snd x)) (head (snd x)) ps) ch pss"
  by (erule list_all2_mono) (simp add: listed_def)

lemma enumerate_names_chain:
  assumes ch: "chain_from m (Some oa) ch" and fr: "brk m \<notin> fst ` set ch"
    and ls: "list_all2 (\<lambda>x ps. listed (snd x) ps) ch pss"
  shows "enumerate_names m oa False = Some (Inr (walk_names [] ch pss))"
proof -
  have c1: "chain_from (fst (jsV_newobject m JS_CITERATOR None)) (Some oa) ch"
    using chain_from_newobject[OF ch fr] .
  have w: "itwalk (fst (jsV_newobject m JS_CITERATOR None)) oa False = Some (Inr (walk_names [] ch pss))"
    using itwalk_full[OF c1 list_all2_listed[OF ls]] .
  have "filter (\<lambda>n. resolve ch n \<noteq> None) (walk_names [] ch pss) = walk_names [] ch pss"
    using walk_names_resolve[OF ls, of _ "[]"] by (simp add: filter_id_conv)
  then show ?thesis using enumerate_names_walk[OF ch fr w] by simp
qed

lemma enumerate_names_own:
  assumes ch: "chain_from m (Some oa) ((oa, ob) # post)" and fr: "brk m \<notin> fst ` set ((oa, ob) # post)"
    and ls: "listed ob ps"
  shows "enumerate_names m oa True = Some (Inr (level_names [] ps))"
proof -
  have c1: "chain_from (fst (jsV_newobject m JS_CITERATOR None)) (Some oa) ((oa, ob) # post)"
    using chain_from_newobject[OF ch fr] .
  have lf: "list_from (properties (snd (oa, ob))) (head (snd (oa, ob))) ps"
    using ls by (simp add: listed_def)
  have w: "itwalk (fst (jsV_newobject m JS_CITERATOR None)) oa True = Some (Inr (level_names [] ps))"
    using itwalk_own[OF c1 lf] .
  have "\<And>n. n \<in> set (level_names [] ps) \<Longrightarrow> resolve ((oa, ob) # post) n \<noteq> None"
  proof -
    fix n assume "n \<in> set (level_names [] ps)"
    then have "exposes ob n" using level_names_exposes[OF ls] by blast
    then show "resolve ((oa, ob) # post) n \<noteq> None"
      by (auto simp: exposes_def split: option.splits)
  qed
  then have "filter (\<lambda>n. resolve ((oa, ob) # post) n \<noteq> None) (level_names [] ps) = level_names [] ps"
    by (simp add: filter_id_conv)
  then show ?thesis using enumerate_names_walk[OF ch fr w] by simp
qed

subsection \<open>The order of enumeration, stale names and shadowing\<close>

text \<open>
  C3. The enumeration of the own properties does not follow the order of first insertion
  once a record with two children has been deleted. On a new object the keys \<open>b\<close>, \<open>a\<close>, \<open>c\<close>
  are set in this order: the record of \<open>b\<close> is the root of the tree and has two children.
  \<open>delete\<close> then copies the name, attributes and value of the successor \<open>c\<close> into the record
  of \<open>b\<close>, which keeps its place at the head of the list, and releases the record of \<open>c\<close>:
  the iterator yields \<open>c\<close> before \<open>a\<close>, while \<open>a\<close> was inserted before \<open>c\<close>.
\<close>

theorem own_enumeration_after_delete:
  "(\<exists>m ob l p r. obj_run 0 new_plain [Set ''b'' undef 0, Set ''a'' undef 0, Set ''c'' undef 0] = Inr m \<and>
      objs m 0 = Some ob \<and> properties ob = Node l p r \<and> name p = ''b'' \<and>
      l \<noteq> Sentinel \<and> r \<noteq> Sentinel) \<and>
   (\<exists>m. obj_run 0 new_plain
           [Set ''b'' undef 0, Set ''a'' undef 0, Set ''c'' undef 0, Del ''b''] = Inr m \<and>
      enumerate_names m 0 True = Some (Inr [''c'', ''a''])) \<and>
   first_insertion_order []
     [Set ''b'' undef 0, Set ''a'' undef 0, Set ''c'' undef 0, Del ''b''] = [''a'', ''c'']"
  by (simp add: run_evals)

text \<open>
  \<open>freenode\<close> never updates \<open>obj->tail\<close>. After the record at the end of the list is
  released, \<open>tail\<close> still points to it, and the next set of a new key stores into the
  released record (\<open>obj->tail->next = result\<close>).
\<close>

lemma set_after_delete_of_last:
  "obj_run 0 new_plain [Set ''a'' undef 0, Set ''b'' undef 0, Del ''b'', Set ''c'' undef 0]
     = Inl UseAfterFree"
  by (simp add: run_evals)

lemma resolves_chain:
  "chain_from m (Some tg) ch \<Longrightarrow> resolves m tg n = (resolve ch n \<noteq> None)"
  using jsV_getproperty_chain[of m tg ch n] by (auto simp: resolves_def split: option.splits)

text \<open>
  C7. One call of \<open>jsV_nextiterator\<close> on an iterator whose target has a prototype chain
  \<open>ch\<close> removes from the queue every name up to and including the first one that
  \<open>jsV_getproperty\<close> resolves on the target, and returns that name, or \<open>NULL\<close> when no name
  of the queue resolves; a caller that calls it until it returns \<open>NULL\<close> gets the names of
  the queue that resolve, in the order of the queue, and no other. The calls return: the
  results are \<open>Some\<close>, and no error.
\<close>

theorem nextiterator_skips_stale:
  assumes "objs m io = Some it" "otype it = JS_CITERATOR" "target it = Some tg"
    and "chain_from m (Some tg) ch" "io \<notin> fst ` set ch"
  shows "jsV_nextiterator m io =
           Some (Inr (m\<lparr>objs := (objs m)(io \<mapsto>
                         it\<lparr>iter_head := tl (dropWhile (\<lambda>n. \<not> resolves m tg n) (iter_head it))\<rparr>)\<rparr>,
                      case dropWhile (\<lambda>n. \<not> resolves m tg n) (iter_head it) of
                        [] \<Rightarrow> None | n # r \<Rightarrow> Some n)) \<and>
         drain m io [] =
           Some (Inr (m\<lparr>objs := (objs m)(io \<mapsto> it\<lparr>iter_head := []\<rparr>)\<rparr>,
                      filter (resolves m tg) (iter_head it)))"
proof -
  have r: "resolves m tg = (\<lambda>n. resolve ch n \<noteq> None)"
    using resolves_chain[OF assms(4)] by auto
  have p: "dropWhile (\<lambda>n. \<not> resolves m tg n) (iter_head it) = pending ch (iter_head it)"
    by (simp add: r pending_def)
  show ?thesis
    using jsV_nextiterator_chain[OF assms(1,2,3,4)] drain_chain[OF assms, of "[]"]
    unfolding p by (simp add: r)
qed

text \<open>
  The object with the own properties \<open>a\<close> and \<open>b\<close> and no prototype: an iterator is built,
  \<open>a\<close> is deleted, and the iterator, whose queue holds \<open>a\<close> and \<open>b\<close>, yields \<open>b\<close> alone.
\<close>

theorem nextiterator_skips_stale_witness:
  "\<exists>m1 m2 it ob.
     jsV_newiterator (projr (obj_run 0 new_plain [Set ''a'' undef 0, Set ''b'' undef 0])) 0 True
       = Some (Inr (m1, 3)) \<and>
     jsV_delproperty m1 0 ''a'' = Inr m2 \<and>
     objs m2 3 = Some it \<and> otype it = JS_CITERATOR \<and> target it = Some 0 \<and>
     iter_head it = [''a'', ''b''] \<and> objs m2 0 = Some ob \<and>
     chain_from m2 (Some 0) [(0, ob)] \<and> 3 \<notin> fst ` set [(0 :: nat, ob)] \<and>
     drain m2 3 [] = Some (Inr (m2\<lparr>objs := (objs m2)(3 \<mapsto> it\<lparr>iter_head := []\<rparr>)\<rparr>, [''b'']))"
proof -
  define m0 where "m0 = projr (obj_run 0 new_plain [Set ''a'' undef 0, Set ''b'' undef 0])"
  define m1 where "m1 = fst (projr (the (jsV_newiterator m0 0 True)))"
  define m2 where "m2 = projr (jsV_delproperty m1 0 ''a'')"
  define it where "it = the (objs m2 3)"
  define ob where "ob = the (objs m2 0)"
  have 1: "jsV_newiterator m0 0 True = Some (Inr (m1, 3))"
    by (simp add: m1_def m0_def run_evals)
  have 2: "jsV_delproperty m1 0 ''a'' = Inr m2"
    by (simp add: m2_def m1_def m0_def run_evals)
  have 3: "objs m2 3 = Some it" "otype it = JS_CITERATOR" "target it = Some 0"
    "iter_head it = [''a'', ''b'']"
    by (simp_all add: it_def m2_def m1_def m0_def run_evals)
  have 4: "objs m2 0 = Some ob" "chain_from m2 (Some 0) [(0, ob)]" "3 \<notin> fst ` set [(0 :: nat, ob)]"
    by (simp_all add: ob_def m2_def m1_def m0_def run_evals)
  have 5: "filter (resolves m2 0) [''a'', ''b''] = [''b'']"
    by (simp add: resolves_def m2_def m1_def m0_def run_evals)
  have "drain m2 3 [] = Some (Inr (m2\<lparr>objs := (objs m2)(3 \<mapsto> it\<lparr>iter_head := []\<rparr>)\<rparr>, [''b'']))"
    using nextiterator_skips_stale[OF 3(1,2,3) 4(2,3)] 3(4) 5 by simp
  then show ?thesis using 1 2 3 4 unfolding m0_def by blast
qed

text \<open>
  C4, as stated, fails. \<open>A\<close> (address 2) has the prototype \<open>B\<close> (address 0); \<open>x\<close> is
  non-enumerable on \<open>A\<close> and enumerable on \<open>B\<close>. \<open>itshadow\<close> passes over the record of \<open>A\<close>,
  since its test asks for a record that is enumerable, and the full-chain enumeration of
  \<open>A\<close> yields \<open>x\<close>.
\<close>

theorem dontenum_does_not_shadow:
  "\<exists>mB m A B p q.
     obj_run 0 new_plain [Set ''x'' undef 0] = Inr mB \<and>
     obj_run 2 (fst (jsV_newobject mB JS_COBJECT (Some 0))) [Set ''x'' undef JS_DONTENUM] = Inr m \<and>
     objs m 2 = Some A \<and> objs m 0 = Some B \<and> prototype A = Some 0 \<and>
     lookup (properties A) ''x'' = Some p \<and> dontenum (atts p) \<and>
     lookup (properties B) ''x'' = Some q \<and> \<not> dontenum (atts q) \<and>
     enumerate_names m 2 False = Some (Inr [''x''])"
  by (simp add: run_evals)

text \<open>
  C4, amended. When \<open>x\<close> is non-enumerable on \<open>A\<close> and enumerable on its prototype \<open>B\<close>, the
  full-chain enumeration of \<open>A\<close> yields \<open>x\<close> exactly once, among the names that \<open>B\<close>
  contributes: not among those of \<open>A\<close>, and not among those of the objects behind \<open>B\<close>.
\<close>

theorem dontenum_exposes_prototype:
  assumes ch: "chain_from m (Some a) ((a, A) # (b, B) # rest)"
    and fr: "brk m \<notin> fst ` set ((a, A) # (b, B) # rest)"
    and ls: "list_all2 (\<lambda>x ps. listed (snd x) ps) ((a, A) # (b, B) # rest) (psA # psB # pss)"
    and pa: "lookup (properties A) x = Some p" "dontenum (atts p)"
    and pb: "lookup (properties B) x = Some q" "\<not> dontenum (atts q)"
  shows "enumerate_names m a False =
           Some (Inr (level_names [] psA @ level_names [(a, A)] psB @
                      walk_names [(a, A), (b, B)] rest pss)) \<and>
         x \<notin> set (level_names [] psA) \<and> x \<in> set (level_names [(a, A)] psB) \<and>
         x \<notin> set (walk_names [(a, A), (b, B)] rest pss)"
proof -
  have e: "enumerate_names m a False = Some (Inr (walk_names [] ((a, A) # (b, B) # rest) (psA # psB # pss)))"
    using enumerate_names_chain[OF ch fr ls] .
  have lA: "listed A psA" and lB: "listed B psB"
    and lr: "list_all2 (\<lambda>x ps. listed (snd x) ps) rest pss" using ls by auto
  have nA: "\<not> exposes A x" using pa by (simp add: exposes_def)
  have eB: "exposes B x" using pb by (simp add: exposes_def)
  have 1: "x \<notin> set (level_names [] psA)" using level_names_exposes[OF lA] nA by blast
  have uq: "unlevel q \<in> set psB" using lookup_recs[OF _ pb(1)] lB by (auto simp: listed_def)
  have nq: "name (unlevel q) = x" "atts (unlevel q) = atts q"
    using lookup_names[OF pb(1)] by (simp_all add: unlevel_def)
  have "\<not> shadowed [(a, A)] x" using nA by (simp add: shadowed_def)
  then have "unlevel q \<in> set (filter (\<lambda>p. \<not> dontenum (atts p) \<and> \<not> shadowed [(a, A)] (name p)) psB)"
    using uq nq pb(2) by simp
  then have "name (unlevel q) \<in> set (level_names [(a, A)] psB)"
    unfolding level_names_def by (metis (no_types, lifting) image_eqI set_map)
  then have 2: "x \<in> set (level_names [(a, A)] psB)" using nq(1) by simp
  have 3: "x \<notin> set (walk_names [(a, A), (b, B)] rest pss)"
    using walk_names_shadow[OF lr, of x "[(a, A), (b, B)]"] eB by (auto simp: shadowed_def)
  show ?thesis using e 1 2 3 by simp
qed

theorem dontenum_exposes_prototype_witness:
  "\<exists>mB m A B psA psB p q.
     obj_run 0 new_plain [Set ''x'' undef 0, Set ''y'' undef 0] = Inr mB \<and>
     obj_run 3 (fst (jsV_newobject mB JS_COBJECT (Some 0)))
       [Set ''x'' undef JS_DONTENUM, Set ''z'' undef 0] = Inr m \<and>
     chain_from m (Some 3) [(3, A), (0, B)] \<and> brk m \<notin> fst ` set [(3, A), (0, B)] \<and>
     list_all2 (\<lambda>x ps. listed (snd x) ps) [(3, A), (0, B)] [psA, psB] \<and>
     lookup (properties A) ''x'' = Some p \<and> dontenum (atts p) \<and>
     lookup (properties B) ''x'' = Some q \<and> \<not> dontenum (atts q) \<and>
     enumerate_names m 3 False = Some (Inr [''z'', ''x'', ''y''])"
proof -
  define mB where "mB = projr (obj_run 0 new_plain [Set ''x'' undef 0, Set ''y'' undef 0])"
  define m where "m = projr (obj_run 3 (fst (jsV_newobject mB JS_COBJECT (Some 0)))
       [Set ''x'' undef JS_DONTENUM, Set ''z'' undef 0])"
  define A where "A = the (objs m 3)"
  define B where "B = the (objs m 0)"
  define psA where "psA = [unlevel (the (find_prop (properties A) 4)),
                           unlevel (the (find_prop (properties A) 5))]"
  define psB where "psB = [unlevel (the (find_prop (properties B) 1)),
                           unlevel (the (find_prop (properties B) 2))]"
  define p where "p = the (lookup (properties A) ''x'')"
  define q where "q = the (lookup (properties B) ''x'')"
  note defs = q_def p_def psB_def psA_def B_def A_def m_def mB_def run_evals listed_def unlevel_def
  have 1: "obj_run 0 new_plain [Set ''x'' undef 0, Set ''y'' undef 0] = Inr mB"
    by (simp add: defs)
  have 2: "obj_run 3 (fst (jsV_newobject mB JS_COBJECT (Some 0)))
       [Set ''x'' undef JS_DONTENUM, Set ''z'' undef 0] = Inr m"
    by (simp add: defs)
  have 3: "chain_from m (Some 3) [(3, A), (0, B)]" by (simp add: defs)
  have 4: "brk m \<notin> fst ` set [(3, A), (0, B)]" by (simp add: defs)
  have 5: "list_all2 (\<lambda>x ps. listed (snd x) ps) [(3, A), (0, B)] [psA, psB]"
    by (simp add: defs)
  have 6: "lookup (properties A) ''x'' = Some p" "dontenum (atts p)" by (simp_all add: defs)
  have 7: "lookup (properties B) ''x'' = Some q" "\<not> dontenum (atts q)" by (simp_all add: defs)
  have 8: "level_names [] psA @ level_names [(3, A)] psB @ walk_names [(3, A), (0, B)] [] []
      = [''z'', ''x'', ''y'']"
    by (simp add: defs level_names_def shadowed_def exposes_def)
  have "enumerate_names m 3 False = Some (Inr [''z'', ''x'', ''y''])"
    using dontenum_exposes_prototype[OF 3 4 5 6 7] 8 by simp
  then show ?thesis using 1 2 3 4 5 6 7 by blast
qed

text \<open>
  C6. By \<open>enumerate_names_chain\<close> and \<open>walk_names_distinct\<close> the full-chain enumeration
  yields each name at most once, object after object along the chain, and for each object
  in the order of its list. That order is not the order of insertion once a record with two
  children has been deleted (see C3): the prototype below had \<open>b\<close>, \<open>a\<close>, \<open>c\<close> set and \<open>b\<close>
  deleted, and contributes \<open>c\<close> before \<open>a\<close>.
\<close>

theorem chain_enumeration_after_delete:
  "\<exists>mB m A.
     obj_run 0 new_plain
       [Set ''b'' undef 0, Set ''a'' undef 0, Set ''c'' undef 0, Del ''b''] = Inr mB \<and>
     obj_run 4 (fst (jsV_newobject mB JS_COBJECT (Some 0))) [Set ''d'' undef 0] = Inr m \<and>
     objs m 4 = Some A \<and> prototype A = Some 0 \<and>
     enumerate_names m 4 False = Some (Inr [''d'', ''c'', ''a'']) \<and>
     first_insertion_order []
       [Set ''b'' undef 0, Set ''a'' undef 0, Set ''c'' undef 0, Del ''b''] = [''a'', ''c'']"
  by (simp add: run_evals)

end
